theory Spec2Isabelle
  imports Main
begin

section \<open>Machine arithmetic of the source\<close>

text \<open>
  The detector mixes \<open>unsigned\<close> (32 bit), \<open>int\<close> (32 bit), \<open>size_t\<close> (64 bit) and
  \<open>qint64\<close> values. Values are kept as \<open>nat\<close> and \<open>int\<close>; every conversion the
  source performs is written out with the functions below.
\<close>

definition u32 :: "int \<Rightarrow> nat" where
  "u32 x = nat (x mod 2 ^ 32)"

definition u64 :: "int \<Rightarrow> nat" where
  "u64 x = nat (x mod 2 ^ 64)"

definition s32 :: "int \<Rightarrow> int" where
  "s32 x = (let r = x mod 2 ^ 32 in if r < 2 ^ 31 then r else r - 2 ^ 32)"

text \<open>Division and remainder of C++ on signed operands truncate towards zero.\<close>

definition cdiv :: "int \<Rightarrow> int \<Rightarrow> int" where
  "cdiv a b = sgn a * sgn b * (\<bar>a\<bar> div \<bar>b\<bar>)"

definition crem :: "int \<Rightarrow> int \<Rightarrow> int" where
  "crem a b = a - b * cdiv a b"

section \<open>Data model\<close>

type_synonym sample = int
type_synonym byte = nat

datatype error = TornFrame | DivideByZero | OutOfRange

datatype event = Lock | Unlock | FramesWritten int

text \<open>
  Constants and helpers that \<open>Detector.cpp\<close> uses but that are declared in headers
  outside the sources at hand (\<open>commons.h\<close>, \<open>Detector.hpp\<close>, \<open>AudioDevice.hpp\<close>) are
  parameters: the decimation factor \<open>Filter::NDOWN\<close>, the macros \<open>JS8_NTMAX\<close> and
  \<open>JS8_RING_BUFFER\<close>, the frame size \<open>bytesPerFrame()\<close>, the conversion of one raw frame
  to a sample done by \<open>store\<close> and the value computed by \<open>Filter::downSample\<close> from a
  run of \<open>NDOWN\<close> samples. The build switch \<open>QT_NO_DEBUG\<close> of Qt is a parameter as well:
  where it is defined, \<open>Q_ASSERT\<close> expands to nothing and its condition is not evaluated.
\<close>

record config =
  NDOWN :: nat
  JS8_NTMAX :: nat
  JS8_RING_BUFFER :: bool
  QT_NO_DEBUG :: bool
  bytesPerFrame :: nat
  sampleOf :: "byte list \<Rightarrow> sample"
  downSample :: "sample list \<Rightarrow> sample"

text \<open>
  The mutable state of a \<open>Detector\<close>: its members and the two fields of the global
  \<open>dec_data\<close> it writes, \<open>dec_data.params.kin\<close> and the array \<open>dec_data.d2\<close>. The
  expression \<open>sizeof (dec_data.d2) / sizeof (dec_data.d2[0])\<close> is \<open>length (d2 s)\<close>.
  The members are declared in \<open>Detector.hpp\<close>; they are taken with the types their uses
  show: \<open>unsigned\<close> for the frame rate, the period, the block size and the window
  position, \<open>int\<close> for \<open>kin\<close> and for the recorded second \<open>m_ns\<close>. \<open>isOpen\<close> is
  the flag of the device that \<open>reset\<close> returns.
\<close>

record detector =
  m_frameRate :: nat
  m_period :: nat
  m_samplesPerFFT :: nat
  m_ns :: int
  m_bufferPos :: nat
  m_buffer :: "sample list"
  kin :: int
  d2 :: "sample list"
  isOpen :: bool

section \<open>Period clock\<close>

text \<open>\<open>Detector::secondInPeriod\<close>; \<open>now\<close> is the reading of the drifting clock.\<close>

definition secondInPeriod :: "detector \<Rightarrow> int \<Rightarrow> error + nat" where
  "secondInPeriod s now =
     (let secondInToday = u32 (cdiv (crem now 86400000) 1000)
      in if m_period s = 0 then Inl DivideByZero
         else Inr (secondInToday mod m_period s))"

text \<open>The local \<open>msInPeriod\<close> of \<open>Detector::resetBufferPosition\<close>.\<close>

definition msInPeriod :: "detector \<Rightarrow> int \<Rightarrow> error + nat" where
  "msInPeriod s now =
     (let periodMs = u32 (int (m_period s) * 1000)
      in if periodMs = 0 then Inl DivideByZero
         else Inr (u32 (crem (crem now 86400000) (int periodMs))))"

section \<open>Control operations\<close>

definition setBlockSize :: "detector \<Rightarrow> nat \<Rightarrow> detector" where
  "setBlockSize s n = s\<lparr>m_samplesPerFFT := n\<rparr>"

text \<open>
  \<open>std::rotate (first, first + n, last)\<close> on a whole array: the element at offset \<open>n\<close>
  becomes the first one. An offset beyond the end is outside the array.
\<close>

definition std_rotate :: "nat \<Rightarrow> 'a list \<Rightarrow> error + 'a list" where
  "std_rotate n xs =
     (if n \<le> length xs then Inr (drop n xs @ take n xs) else Inl OutOfRange)"

text \<open>The same call on the reverse iterators \<open>rbegin\<close>, \<open>rbegin + n\<close>, \<open>rend\<close>.\<close>

definition std_rotate_reverse :: "nat \<Rightarrow> 'a list \<Rightarrow> error + 'a list" where
  "std_rotate_reverse n xs =
     (case std_rotate n (rev xs) of Inl e \<Rightarrow> Inl e | Inr ys \<Rightarrow> Inr (rev ys))"

text \<open>
  \<open>Detector::resetBufferPosition\<close>. The clock is read twice, once for \<open>msInPeriod\<close>
  (\<open>now\<close>) and once inside \<open>secondInPeriod\<close> (\<open>now'\<close>).
\<close>

definition resetBufferPosition ::
  "detector \<Rightarrow> int \<Rightarrow> int \<Rightarrow> error + (detector \<times> event list)" where
  "resetBufferPosition s now now' =
     (case msInPeriod s now of
        Inl e \<Rightarrow> Inl e
      | Inr ms \<Rightarrow>
          (let prevKin = kin s;
               newKin = s32 (int (min (u32 (int ms * int (m_frameRate s)) div 1000)
                                      (u32 (int (length (d2 s))))))
           in case secondInPeriod s now' of
                Inl e \<Rightarrow> Inl e
              | Inr ns \<Rightarrow>
                  (let delta = newKin - prevKin
                   in case (if delta < 0 then std_rotate (nat (- delta)) (d2 s)
                            else std_rotate_reverse (nat delta) (d2 s)) of
                        Inl e \<Rightarrow> Inl e
                      | Inr buf \<Rightarrow>
                          Inr (s\<lparr>kin := newKin, m_bufferPos := 0, m_ns := s32 (int ns),
                                 d2 := buf\<rparr>,
                               [Lock, Unlock]))))"

text \<open>\<open>Detector::resetBufferContent\<close>.\<close>

definition resetBufferContent :: "detector \<Rightarrow> detector \<times> event list" where
  "resetBufferContent s = (s\<lparr>d2 := replicate (length (d2 s)) 0\<rparr>, [Lock, Unlock])"

text \<open>\<open>Detector::clear\<close>, with both branches of the conditional compilation.\<close>

definition clear ::
  "config \<Rightarrow> detector \<Rightarrow> int \<Rightarrow> int \<Rightarrow> error + (detector \<times> event list)" where
  "clear c s now now' =
     (if JS8_RING_BUFFER c then
        (case resetBufferPosition s now now' of
           Inl e \<Rightarrow> Inl e
         | Inr (s1, ev1) \<Rightarrow>
             (case resetBufferContent s1 of (s2, ev2) \<Rightarrow> Inr (s2, ev1 @ ev2)))
      else Inr (s\<lparr>kin := 0, m_bufferPos := 0\<rparr>, []))"

text \<open>\<open>Detector::reset\<close>: clears, then answers \<open>isOpen ()\<close>.\<close>

definition reset ::
  "config \<Rightarrow> detector \<Rightarrow> int \<Rightarrow> int \<Rightarrow> error + (detector \<times> event list \<times> bool)" where
  "reset c s now now' =
     (case clear c s now now' of
        Inl e \<Rightarrow> Inl e
      | Inr (s', ev) \<Rightarrow> Inr (s', ev, isOpen s'))"

section \<open>The write path\<close>

text \<open>
  Modelled from the spec: \<open>AudioDevice::store\<close>, called as
  \<open>store (&data[off], n, &m_buffer[pos])\<close>, is declared outside the sources at hand. By
  the specification it copies \<open>n\<close> raw frames into the working window starting at the
  window position: the frames are read from byte offset \<open>off\<close>, each is converted to one
  sample and the samples are written from \<open>pos\<close> on. Reading past the input or writing
  past the window is outside the arrays.
\<close>

definition store ::
  "config \<Rightarrow> byte list \<Rightarrow> nat \<Rightarrow> nat \<Rightarrow> nat \<Rightarrow> sample list \<Rightarrow> error + sample list" where
  "store c data off n pos buf =
     (if pos + n \<le> length buf \<and> off + n * bytesPerFrame c \<le> length data then
        Inr (take pos buf
             @ map (\<lambda>j. sampleOf c (take (bytesPerFrame c) (drop (off + j * bytesPerFrame c) data)))
                   [0..<n]
             @ drop (pos + n) buf)
      else Inl OutOfRange)"

text \<open>\<open>m_samplesPerFFT * Filter::NDOWN\<close>, a \<open>size_t\<close> product.\<close>

definition windowSize :: "config \<Rightarrow> detector \<Rightarrow> nat" where
  "windowSize c s = u64 (int (m_samplesPerFFT s) * int (NDOWN c))"

text \<open>The inner loop over \<open>i\<close> that fills \<open>dec_data.d2\<close> from \<open>kin\<close> on.\<close>

function decimate :: "config \<Rightarrow> detector \<Rightarrow> nat \<Rightarrow> error + detector" where
  "decimate c s i =
     (if i < m_samplesPerFFT s then
        (if 0 \<le> kin s \<and> nat (kin s) < length (d2 s) then
           decimate c
             (s\<lparr>d2 := (d2 s)[nat (kin s) :=
                          downSample c (take (NDOWN c) (drop (i * NDOWN c) (m_buffer s)))],
                kin := kin s + 1\<rparr>)
             (i + 1)
         else Inl OutOfRange)
      else Inr s)"
  by pat_completeness auto
termination
  by (relation "measure (\<lambda>(c, s, i). m_samplesPerFFT s - i)") auto

declare decimate.simps [simp del]

text \<open>The bound of the check before decimation, \<open>static_cast<int> (JS8_NTMAX * 12000 - m_samplesPerFFT)\<close>.\<close>

definition kinLimit :: "config \<Rightarrow> detector \<Rightarrow> int" where
  "kinLimit c s = s32 (int (u32 (int (JS8_NTMAX c) * 12000 - int (m_samplesPerFFT s))))"

text \<open>The block run when the window position is tested against the window size.\<close>

definition drain :: "config \<Rightarrow> detector \<Rightarrow> error + (detector \<times> event list)" where
  "drain c s =
     (if m_bufferPos s = windowSize c s then
        (case (if 0 \<le> kin s \<and> kin s < kinLimit c s then decimate c s 0 else Inr s) of
           Inl e \<Rightarrow> Inl e
         | Inr s' \<Rightarrow> Inr (s'\<lparr>m_bufferPos := 0\<rparr>, [FramesWritten (kin s')]))
      else Inr (s, []))"

text \<open>One pass through the body of the loop over \<open>remaining\<close>.\<close>

definition step ::
  "config \<Rightarrow> byte list \<Rightarrow> nat \<Rightarrow> detector \<Rightarrow> nat \<Rightarrow> error + (detector \<times> event list \<times> nat)" where
  "step c data framesAccepted s remaining =
     (let numFramesProcessed =
            min (u64 (int (windowSize c s) - int (m_bufferPos s))) remaining
      in case store c data ((framesAccepted - remaining) * bytesPerFrame c)
                numFramesProcessed (m_bufferPos s) (m_buffer s) of
           Inl e \<Rightarrow> Inl e
         | Inr buf \<Rightarrow>
             (case drain c (s\<lparr>m_buffer := buf,
                              m_bufferPos := u32 (int (m_bufferPos s) + int numFramesProcessed)\<rparr>) of
                Inl e \<Rightarrow> Inl e
              | Inr (s', ev) \<Rightarrow> Inr (s', ev, remaining - numFramesProcessed)))"

text \<open>The loop itself; \<open>None\<close> stands for a loop that never ends.\<close>

partial_function (option) frames_loop ::
  "config \<Rightarrow> byte list \<Rightarrow> nat \<Rightarrow> detector \<Rightarrow> event list \<Rightarrow> nat
     \<Rightarrow> (error + (detector \<times> event list)) option" where
  "frames_loop c data framesAccepted s ev remaining =
     (if remaining = 0 then Some (Inr (s, ev))
      else case step c data framesAccepted s remaining of
             Inl e \<Rightarrow> Some (Inl e)
           | Inr (s', ev', remaining') \<Rightarrow>
               frames_loop c data framesAccepted s' (ev @ ev') remaining')"

declare frames_loop.simps [code]

text \<open>The restart of the buffers when the second in the period has gone back.\<close>

definition restartOnWrap :: "detector \<Rightarrow> int \<Rightarrow> detector" where
  "restartOnWrap s ns =
     (if ns < m_ns s then s\<lparr>kin := 0, m_bufferPos := 0\<rparr> else s)\<lparr>m_ns := ns\<rparr>"

definition framesAcceptable :: "config \<Rightarrow> detector \<Rightarrow> nat" where
  "framesAcceptable c s = u64 (int (u64 (int (length (d2 s)) - kin s)) * int (NDOWN c))"

definition framesAccepted :: "config \<Rightarrow> detector \<Rightarrow> int \<Rightarrow> nat" where
  "framesAccepted c s maxSize =
     min (u64 (int (u64 maxSize div bytesPerFrame c))) (framesAcceptable c s)"

text \<open>
  \<open>Detector::writeData\<close>; \<open>maxSize\<close> is the length of \<open>data\<close>. The result is the new
  state, the events in order and the returned count. The assertion against torn frames
  stops the call only in a build without \<open>QT_NO_DEBUG\<close>; the division by the frame size
  is done in every build, by the assertion or by the count of the frames.
\<close>

definition writeData ::
  "config \<Rightarrow> detector \<Rightarrow> int \<Rightarrow> byte list
     \<Rightarrow> (error + (detector \<times> event list \<times> int)) option" where
  "writeData c s now data =
     (case secondInPeriod s now of
        Inl e \<Rightarrow> Some (Inl e)
      | Inr ns \<Rightarrow>
          (let s1 = restartOnWrap s (s32 (int ns));
               maxSize = int (length data)
           in if bytesPerFrame c = 0 then Some (Inl DivideByZero)
              else if \<not> QT_NO_DEBUG c \<and> crem maxSize (int (bytesPerFrame c)) \<noteq> 0
                   then Some (Inl TornFrame)
              else (case frames_loop c data (framesAccepted c s1 maxSize) s1 []
                           (framesAccepted c s1 maxSize) of
                      None \<Rightarrow> None
                    | Some (Inl e) \<Rightarrow> Some (Inl e)
                    | Some (Inr (s2, ev)) \<Rightarrow> Some (Inr (s2, Lock # ev @ [Unlock], maxSize)))))"

section \<open>Well-formed configurations and states\<close>

text \<open>
  The ranges in which none of the conversions above wraps: array lengths fit an \<open>int\<close>,
  the window of \<open>m_samplesPerFFT * NDOWN\<close> raw samples fits \<open>m_buffer\<close> and is not
  empty, the window position lies inside the window, \<open>kin\<close> lies between 0 and the
  length of \<open>d2\<close>, which is the \<open>JS8_NTMAX * 12000\<close> of the bounds check.
\<close>

definition config_ok :: "config \<Rightarrow> bool" where
  "config_ok c \<longleftrightarrow>
     0 < NDOWN c \<and> NDOWN c < 2 ^ 32 \<and> 0 < bytesPerFrame c \<and> JS8_NTMAX c * 12000 < 2 ^ 31"

definition valid :: "config \<Rightarrow> detector \<Rightarrow> bool" where
  "valid c s \<longleftrightarrow>
     length (d2 s) = JS8_NTMAX c * 12000 \<and>
     0 \<le> kin s \<and> kin s \<le> int (length (d2 s)) \<and>
     0 < m_samplesPerFFT s \<and>
     m_samplesPerFFT s * NDOWN c \<le> length (m_buffer s) \<and>
     length (m_buffer s) < 2 ^ 31 \<and>
     m_bufferPos s < m_samplesPerFFT s * NDOWN c \<and>
     0 < m_period s \<and> m_period s * 1000 < 2 ^ 32"

text \<open>The state after the inner loop has run from \<open>i\<close> to the block size, in closed form.\<close>

definition decimated :: "config \<Rightarrow> detector \<Rightarrow> nat \<Rightarrow> detector" where
  "decimated c s i =
     s\<lparr>d2 := take (nat (kin s)) (d2 s)
              @ map (\<lambda>j. downSample c (take (NDOWN c) (drop (j * NDOWN c) (m_buffer s))))
                    [i..<m_samplesPerFFT s]
              @ drop (nat (kin s) + (m_samplesPerFFT s - i)) (d2 s),
       kin := kin s + int (m_samplesPerFFT s - i)\<rparr>"

text \<open>
  The value that \<open>resetBufferPosition\<close> assigns to \<open>kin\<close> at clock offset \<open>ms\<close>,
  once the conversions of the array length are known not to wrap.
\<close>

definition alignedKin :: "detector \<Rightarrow> nat \<Rightarrow> int" where
  "alignedKin s ms =
     int (min (u32 (int ms * int (m_frameRate s)) div 1000) (length (d2 s)))"

text \<open>The sample that \<open>store\<close> makes of frame number \<open>j\<close> of the input.\<close>

definition frameSample :: "config \<Rightarrow> byte list \<Rightarrow> nat \<Rightarrow> sample" where
  "frameSample c data j =
     sampleOf c (take (bytesPerFrame c) (drop (j * bytesPerFrame c) data))"

section \<open>The lock in a trace of events\<close>

text \<open>
  Each \<open>QMutexLocker mutex (&m_lock)\<close> of the source gives a \<open>Lock\<close> event where it is
  constructed and an \<open>Unlock\<close> event where its scope ends. The specification asks that the
  lock is released before \<open>framesWritten\<close> is emitted; on a trace this reads: no
  \<open>FramesWritten\<close> event occurs while the lock is held. The flag tells whether the lock is
  held before the first event.
\<close>

fun emittedUnlocked :: "bool \<Rightarrow> event list \<Rightarrow> bool" where
  "emittedUnlocked held [] = True"
| "emittedUnlocked held (Lock # es) = emittedUnlocked True es"
| "emittedUnlocked held (Unlock # es) = emittedUnlocked False es"
| "emittedUnlocked held (FramesWritten k # es) = (\<not> held \<and> emittedUnlocked held es)"

section \<open>A sample configuration\<close>

text \<open>
  A configuration for concrete runs: a period buffer of 60 seconds at 12000 samples per
  second, decimation by 4 and mono frames of two bytes, read as little-endian numbers; the
  filter is replaced by the sum of its input run. The sample state is 5 seconds into a 60
  second period, with a block size of 2 and three raw samples waiting in the window.
\<close>

definition demo_config :: config where
  "demo_config =
     \<lparr>NDOWN = 4, JS8_NTMAX = 60, JS8_RING_BUFFER = True, QT_NO_DEBUG = False,
      bytesPerFrame = 2,
      sampleOf = (\<lambda>bs. foldr (\<lambda>b acc. int b + 256 * acc) bs 0),
      downSample = sum_list\<rparr>"

definition demo_state :: detector where
  "demo_state =
     \<lparr>m_frameRate = 12000, m_period = 60, m_samplesPerFFT = 2, m_ns = 5, m_bufferPos = 3,
      m_buffer = [1, 2, 3, 0, 0, 0, 0, 0], kin = 60000, d2 = replicate 720000 7,
      isOpen = True\<rparr>"

section \<open>Conversions that do not wrap\<close>

lemma u32_id: "0 \<le> x \<Longrightarrow> x < 2 ^ 32 \<Longrightarrow> u32 x = nat x"
  by (simp add: u32_def)

lemma u64_id: "0 \<le> x \<Longrightarrow> x < 2 ^ 64 \<Longrightarrow> u64 x = nat x"
  by (simp add: u64_def)

lemma s32_nat: "0 \<le> x \<Longrightarrow> x < 2 ^ 31 \<Longrightarrow> s32 x = x"
  by (simp add: s32_def)

lemma s32_id: "- (2 ^ 31) \<le> x \<Longrightarrow> x < 2 ^ 31 \<Longrightarrow> s32 (int (u32 x)) = x"
proof (cases "0 \<le> x")
  case True
  assume "x < 2 ^ 31"
  with True show ?thesis by (simp add: s32_def u32_def)
next
  case False
  assume a: "- (2 ^ 31) \<le> x"
  have "(x + 2 ^ 32) mod 2 ^ 32 = x + 2 ^ 32"
    using False a by (intro mod_pos_pos_trivial) auto
  then have m: "x mod 2 ^ 32 = x + 2 ^ 32" by simp
  with False a show ?thesis by (simp add: s32_def u32_def Let_def)
qed

section \<open>The inner loop\<close>

lemma decimate_closed:
  "0 \<le> kin s \<Longrightarrow> nat (kin s) + (m_samplesPerFFT s - i) \<le> length (d2 s)
     \<Longrightarrow> decimate c s i = Inr (decimated c s i)"
proof (induction c s i rule: decimate.induct)
  case (1 c s i)
  show ?case
  proof (cases "i < m_samplesPerFFT s")
    case False
    then show ?thesis by (subst decimate.simps) (simp add: decimated_def)
  next
    case True
    let ?k = "nat (kin s)"
    let ?v = "downSample c (take (NDOWN c) (drop (i * NDOWN c) (m_buffer s)))"
    let ?s1 = "s\<lparr>d2 := (d2 s)[?k := ?v], kin := kin s + 1\<rparr>"
    from True "1.prems" have k: "?k < length (d2 s)" by simp
    have ih: "decimate c ?s1 (i + 1) = Inr (decimated c ?s1 (i + 1))"
      using True k "1.prems" by (intro "1.IH") (auto simp: nat_add_distrib)
    have t: "take (nat (kin s + 1)) ((d2 s)[?k := ?v]) = take ?k (d2 s) @ [?v]"
      using k "1.prems"(1) by (simp add: nat_add_distrib take_Suc_conv_app_nth)
    have ix: "nat (kin s + 1) + (m_samplesPerFFT s - (i + 1)) = ?k + (m_samplesPerFFT s - i)"
      using True "1.prems"(1) by linarith
    have d: "drop (nat (kin s + 1) + (m_samplesPerFFT s - (i + 1))) ((d2 s)[?k := ?v])
               = drop (?k + (m_samplesPerFFT s - i)) (d2 s)"
      unfolding ix using True by simp
    have e: "decimated c ?s1 (i + 1) = decimated c s i"
      using True t d by (simp add: decimated_def upt_conv_Cons)
    show ?thesis
      using True k "1.prems"(1) ih e by (subst decimate.simps) simp
  qed
qed

section \<open>One pass of the loop on a well-formed state\<close>

lemma int_less_power: "(a::nat) < 2 ^ k \<Longrightarrow> int a < 2 ^ k"
  by simp

lemma windowSize_valid:
  assumes "valid c s"
  shows "windowSize c s = m_samplesPerFFT s * NDOWN c"
proof -
  have "m_samplesPerFFT s * NDOWN c < 2 ^ 31"
    using assms unfolding valid_def by linarith
  then have "int (m_samplesPerFFT s * NDOWN c) < 2 ^ 31"
    by (rule int_less_power)
  then have "int (m_samplesPerFFT s) * int (NDOWN c) < 2 ^ 64"
    by simp
  then show ?thesis
    unfolding windowSize_def by (simp add: u64_id nat_mult_distrib)
qed

lemma kinLimit_valid:
  assumes "config_ok c" "valid c s"
  shows "kinLimit c s = int (JS8_NTMAX c * 12000) - int (m_samplesPerFFT s)"
proof -
  have "m_samplesPerFFT s \<le> m_samplesPerFFT s * NDOWN c"
    using assms(1) unfolding config_ok_def by simp
  moreover have "m_samplesPerFFT s * NDOWN c < 2 ^ 31"
    using assms(2) unfolding valid_def by linarith
  ultimately have "m_samplesPerFFT s < 2 ^ 31"
    by linarith
  then have a: "int (m_samplesPerFFT s) < 2 ^ 31" by (rule int_less_power)
  have b: "int (JS8_NTMAX c * 12000) < 2 ^ 31"
    using assms(1) unfolding config_ok_def by (intro int_less_power) simp
  have "s32 (int (u32 (int (JS8_NTMAX c * 12000) - int (m_samplesPerFFT s))))
          = int (JS8_NTMAX c * 12000) - int (m_samplesPerFFT s)"
    using a b by (intro s32_id) linarith+
  then show ?thesis unfolding kinLimit_def by simp
qed

lemma store_length:
  "store c data off n pos buf = Inr buf' \<Longrightarrow> length buf' = length buf"
  by (auto simp: store_def split: if_splits)


lemma drain_not_full:
  "m_bufferPos s \<noteq> windowSize c s \<Longrightarrow> drain c s = Inr (s, [])"
  by (simp add: drain_def)

lemma drain_skip:
  "m_bufferPos s = windowSize c s \<Longrightarrow> \<not> (0 \<le> kin s \<and> kin s < kinLimit c s)
     \<Longrightarrow> drain c s = Inr (s\<lparr>m_bufferPos := 0\<rparr>, [FramesWritten (kin s)])"
  by (auto simp: drain_def)

lemma drain_decimate:
  assumes "m_bufferPos s = windowSize c s" "0 \<le> kin s" "kin s < kinLimit c s"
    and "nat (kin s) + m_samplesPerFFT s \<le> length (d2 s)"
  shows "drain c s = Inr ((decimated c s 0)\<lparr>m_bufferPos := 0\<rparr>,
                          [FramesWritten (kin s + int (m_samplesPerFFT s))])"
proof -
  have "decimate c s 0 = Inr (decimated c s 0)"
    using assms(2,4) by (intro decimate_closed) simp_all
  moreover have "kin (decimated c s 0) = kin s + int (m_samplesPerFFT s)"
    by (simp add: decimated_def)
  ultimately show ?thesis
    using assms(1,2,3) by (simp add: drain_def)
qed


lemma step_unfold:
  assumes c: "config_ok c" and v: "valid c s" and r: "0 < r" "r \<le> fa"
    and d: "fa * bytesPerFrame c \<le> length data"
  defines "n \<equiv> min (m_samplesPerFFT s * NDOWN c - m_bufferPos s) r"
  shows "\<exists>buf. length buf = length (m_buffer s) \<and>
           store c data ((fa - r) * bytesPerFrame c) n (m_bufferPos s) (m_buffer s) = Inr buf \<and>
           step c data fa s r =
             (case drain c (s\<lparr>m_buffer := buf, m_bufferPos := m_bufferPos s + n\<rparr>) of
                Inl e \<Rightarrow> Inl e
              | Inr (s', ev) \<Rightarrow> Inr (s', ev, r - n))"
proof -
  let ?W = "m_samplesPerFFT s * NDOWN c"
  let ?pos = "m_bufferPos s"
  have W: "windowSize c s = ?W" by (rule windowSize_valid[OF v])
  have posW: "?pos < ?W" and Wbuf: "?W \<le> length (m_buffer s)"
    and buf31: "length (m_buffer s) < 2 ^ 31"
    using v unfolding valid_def by auto
  have "int (?W - ?pos) < 2 ^ 31"
    using Wbuf buf31 by (intro int_less_power) linarith
  then have "u64 (int (?W - ?pos)) = ?W - ?pos"
    by (simp add: u64_id)
  moreover have "int ?W - int ?pos = int (?W - ?pos)"
    using posW by linarith
  ultimately have n_eq: "min (u64 (int (windowSize c s) - int ?pos)) r = n"
    unfolding W n_def by simp
  have n_le: "n \<le> r" "?pos + n \<le> ?W"
    using posW unfolding n_def by auto
  have "(fa - r + n) * bytesPerFrame c \<le> fa * bytesPerFrame c"
    using n_le(1) r(2) by (intro mult_le_mono1) linarith
  then have rd: "(fa - r) * bytesPerFrame c + n * bytesPerFrame c \<le> length data"
    using d by (simp add: add_mult_distrib)
  have wr: "?pos + n \<le> length (m_buffer s)"
    using n_le(2) Wbuf by linarith
  obtain buf where st:
    "store c data ((fa - r) * bytesPerFrame c) n ?pos (m_buffer s) = Inr buf"
    using rd wr by (simp add: store_def)
  have lb: "length buf = length (m_buffer s)"
    using st by (rule store_length)
  have "int (?pos + n) < 2 ^ 32"
    using wr buf31 by (intro int_less_power) simp
  then have pos': "u32 (int ?pos + int n) = ?pos + n"
    by (simp add: u32_id nat_add_distrib)
  have "step c data fa s r =
          (case drain c (s\<lparr>m_buffer := buf, m_bufferPos := ?pos + n\<rparr>) of
             Inl e \<Rightarrow> Inl e
           | Inr (s', ev) \<Rightarrow> Inr (s', ev, r - n))"
    unfolding step_def n_eq Let_def st pos' by simp
  with lb st show ?thesis by blast
qed

lemma valid_decimated:
  assumes c: "config_ok c" and v: "valid c s" and k: "kin s < kinLimit c s"
  shows "valid c ((decimated c s 0)\<lparr>m_bufferPos := 0\<rparr>)"
proof -
  have kl: "kin s < int (JS8_NTMAX c * 12000) - int (m_samplesPerFFT s)"
    using k kinLimit_valid[OF c v] by simp
  have k0: "0 \<le> kin s" and len: "length (d2 s) = JS8_NTMAX c * 12000"
    using v unfolding valid_def by auto
  have fit: "nat (kin s) + m_samplesPerFFT s \<le> length (d2 s)"
    using kl k0 len by linarith
  have l': "length (d2 (decimated c s 0)) = length (d2 s)"
    using fit k0 by (simp add: decimated_def)
  have k': "kin (decimated c s 0) = kin s + int (m_samplesPerFFT s)"
    by (simp add: decimated_def)
  have o: "m_samplesPerFFT (decimated c s 0) = m_samplesPerFFT s"
    "m_buffer (decimated c s 0) = m_buffer s" "m_period (decimated c s 0) = m_period s"
    by (simp_all add: decimated_def)
  have nd: "0 < NDOWN c"
    using c unfolding config_ok_def by simp
  show ?thesis
    using v kl nd unfolding valid_def by (simp add: l' k' o)
qed

lemma step_valid:
  assumes c: "config_ok c" and v: "valid c s" and r: "0 < r" "r \<le> fa"
    and d: "fa * bytesPerFrame c \<le> length data"
  shows "\<exists>s' ev r'. step c data fa s r = Inr (s', ev, r') \<and> r' < r \<and> valid c s' \<and>
           kin s \<le> kin s' \<and> m_ns s' = m_ns s \<and> isOpen s' = isOpen s \<and>
           (\<exists>ks. ev = map FramesWritten ks)"
proof -
  let ?W = "m_samplesPerFFT s * NDOWN c"
  define n where "n = min (?W - m_bufferPos s) r"
  obtain buf where lb: "length buf = length (m_buffer s)"
    and st: "step c data fa s r =
      (case drain c (s\<lparr>m_buffer := buf, m_bufferPos := m_bufferPos s + n\<rparr>) of
         Inl e \<Rightarrow> Inl e | Inr (s', ev) \<Rightarrow> Inr (s', ev, r - n))"
    using step_unfold[OF c v r d] unfolding n_def by blast
  let ?s1 = "s\<lparr>m_buffer := buf, m_bufferPos := m_bufferPos s + n\<rparr>"
  have posW: "m_bufferPos s < ?W"
    using v unfolding valid_def by auto
  have n0: "0 < n" "n \<le> r" "m_bufferPos s + n \<le> ?W"
    using posW r(1) unfolding n_def by auto
  have rn: "r - n < r" using n0 r(1) by linarith
  have W1: "windowSize c ?s1 = ?W"
    using windowSize_valid[OF v] by (simp add: windowSize_def)
  have K1: "kinLimit c ?s1 = kinLimit c s"
    by (simp add: kinLimit_def)
  show ?thesis
  proof (cases "m_bufferPos s + n = ?W")
    case False
    then have "drain c ?s1 = Inr (?s1, [])"
      using W1 by (intro drain_not_full) simp
    moreover have "valid c ?s1"
      using v False n0(3) lb unfolding valid_def by simp
    ultimately show ?thesis
      using st rn by simp
  next
    case full: True
    have nd: "0 < NDOWN c"
      using c unfolding config_ok_def by simp
    have v1: "valid c (?s1\<lparr>m_bufferPos := 0\<rparr>)"
      using v lb nd unfolding valid_def by simp
    show ?thesis
    proof (cases "0 \<le> kin s \<and> kin s < kinLimit c s")
      case False
      then have "drain c ?s1 = Inr (?s1\<lparr>m_bufferPos := 0\<rparr>, [FramesWritten (kin ?s1)])"
        using W1 K1 full by (intro drain_skip) simp_all
      moreover have "[FramesWritten (kin ?s1)] = map FramesWritten [kin ?s1]" by simp
      ultimately show ?thesis
        using st rn v1 by (simp del: list.map) blast
    next
      case True
      have v1': "valid c (?s1\<lparr>m_bufferPos := 0\<rparr>)" by (rule v1)
      have vs1: "valid c (s\<lparr>m_buffer := buf, m_bufferPos := 0\<rparr>)"
        using v1 by simp
      have kl: "kin s < int (JS8_NTMAX c * 12000) - int (m_samplesPerFFT s)"
        using True kinLimit_valid[OF c v] by simp
      have len: "length (d2 s) = JS8_NTMAX c * 12000"
        using v unfolding valid_def by auto
      have "nat (kin s) + m_samplesPerFFT s \<le> length (d2 s)"
        using kl True len by linarith
      then have fit: "nat (kin ?s1) + m_samplesPerFFT ?s1 \<le> length (d2 ?s1)"
        by simp
      have dr: "drain c ?s1 = Inr ((decimated c ?s1 0)\<lparr>m_bufferPos := 0\<rparr>,
                  [FramesWritten (kin ?s1 + int (m_samplesPerFFT ?s1))])"
        using W1 K1 full True fit by (intro drain_decimate) simp_all
      have eq: "(decimated c ?s1 0)\<lparr>m_bufferPos := 0\<rparr>
                  = (decimated c (s\<lparr>m_buffer := buf, m_bufferPos := 0\<rparr>) 0)\<lparr>m_bufferPos := 0\<rparr>"
        by (simp add: decimated_def)
      have "kinLimit c (s\<lparr>m_buffer := buf, m_bufferPos := 0\<rparr>) = kinLimit c s"
        by (simp add: kinLimit_def)
      then have vd: "valid c ((decimated c ?s1 0)\<lparr>m_bufferPos := 0\<rparr>)"
        unfolding eq using True by (intro valid_decimated[OF c vs1]) simp
      have f: "kin ((decimated c ?s1 0)\<lparr>m_bufferPos := 0\<rparr>) = kin s + int (m_samplesPerFFT s)"
        "m_ns ((decimated c ?s1 0)\<lparr>m_bufferPos := 0\<rparr>) = m_ns s"
        "isOpen ((decimated c ?s1 0)\<lparr>m_bufferPos := 0\<rparr>) = isOpen s"
        by (simp_all add: decimated_def)
      have "[FramesWritten (kin ?s1 + int (m_samplesPerFFT ?s1))]
              = map FramesWritten [kin ?s1 + int (m_samplesPerFFT ?s1)]" by simp
      then show ?thesis
        using st rn vd f dr by (simp del: list.map) blast
    qed
  qed
qed


lemma frames_loop_valid:
  assumes c: "config_ok c" and d: "fa * bytesPerFrame c \<le> length data"
  shows "valid c s \<Longrightarrow> r \<le> fa \<Longrightarrow>
         \<exists>s' ks. frames_loop c data fa s ev r = Some (Inr (s', ev @ map FramesWritten ks)) \<and>
           valid c s' \<and> kin s \<le> kin s' \<and> m_ns s' = m_ns s \<and> isOpen s' = isOpen s"
proof (induction r arbitrary: s ev rule: less_induct)
  case (less r)
  show ?case
  proof (cases "r = 0")
    case True
    have "frames_loop c data fa s ev r = Some (Inr (s, ev @ map FramesWritten []))"
      using True by (subst frames_loop.simps) simp
    with less.prems(1) show ?thesis by blast
  next
    case False
    then have r0: "0 < r" by simp
    obtain s1 ks1 r1 where st: "step c data fa s r = Inr (s1, map FramesWritten ks1, r1)"
      and r1: "r1 < r" and v1: "valid c s1" and k1: "kin s \<le> kin s1"
      and n1: "m_ns s1 = m_ns s" and o1: "isOpen s1 = isOpen s"
      using step_valid[OF c less.prems(1) r0 less.prems(2) d] by blast
    have r1fa: "r1 \<le> fa" using r1 less.prems(2) by linarith
    obtain s' ks' where lp: "frames_loop c data fa s1 (ev @ map FramesWritten ks1) r1
          = Some (Inr (s', (ev @ map FramesWritten ks1) @ map FramesWritten ks'))"
      and v': "valid c s'" and k': "kin s1 \<le> kin s'"
      and n': "m_ns s' = m_ns s1" and o': "isOpen s' = isOpen s1"
      using less.IH[OF r1 v1 r1fa] by blast
    have "frames_loop c data fa s ev r
            = Some (Inr (s', ev @ map FramesWritten (ks1 @ ks')))"
      using False st lp by (subst frames_loop.simps) simp
    moreover have "kin s \<le> kin s'" using k1 k' by linarith
    ultimately show ?thesis
      using v' n' n1 o' o1 by (intro exI[of _ s'] exI[of _ "ks1 @ ks'"]) simp
  qed
qed

lemma crem_nat: "crem (int a) (int b) = int (a mod b)"
proof -
  have "cdiv (int a) (int b) = int (a div b)"
    by (cases "a = 0"; cases "b = 0") (simp_all add: cdiv_def zdiv_int)
  then have "crem (int a) (int b) = int a - int b * (int a div int b)"
    by (simp add: crem_def zdiv_int)
  also have "\<dots> = int a mod int b"
    by (rule minus_mult_div_eq_mod)
  finally show ?thesis
    by (simp add: zmod_int)
qed

lemma framesAcceptable_valid:
  assumes c: "config_ok c" and v: "valid c s"
  shows "framesAcceptable c s = (length (d2 s) - nat (kin s)) * NDOWN c"
proof -
  let ?room = "length (d2 s) - nat (kin s)"
  have k: "0 \<le> kin s" "kin s \<le> int (length (d2 s))"
    and len: "length (d2 s) = JS8_NTMAX c * 12000"
    using v unfolding valid_def by auto
  have cap: "length (d2 s) < 2 ^ 31" and nd: "NDOWN c < 2 ^ 32"
    using c len unfolding config_ok_def by auto
  have e: "int (length (d2 s)) - kin s = int ?room"
    using k by linarith
  have "int ?room < 2 ^ 31"
    using cap by (intro int_less_power) linarith
  then have u: "u64 (int ?room) = ?room"
    by (simp add: u64_id)
  have "?room * NDOWN c \<le> 2 ^ 31 * 2 ^ 32"
    using cap nd by (intro mult_mono) simp_all
  then have "?room * NDOWN c < 2 ^ 64" by simp
  then have "int (?room * NDOWN c) < 2 ^ 64" by (rule int_less_power)
  then have "u64 (int ?room * int (NDOWN c)) = ?room * NDOWN c"
    by (simp add: u64_id nat_mult_distrib)
  then show ?thesis
    unfolding framesAcceptable_def e u by simp
qed

lemma framesAccepted_valid:
  assumes c: "config_ok c" and v: "valid c s" and l: "length data < 2 ^ 63"
  shows "framesAccepted c s (int (length data))
           = min (length data div bytesPerFrame c) ((length (d2 s) - nat (kin s)) * NDOWN c)"
proof -
  have "int (length data) < 2 ^ 64"
    using l by (intro int_less_power) simp
  then have a: "u64 (int (length data)) = length data"
    by (simp add: u64_id)
  have "length data < 2 ^ 64"
    using l by simp
  then have "length data div bytesPerFrame c < 2 ^ 64"
    by (rule le_less_trans[OF div_le_dividend])
  then have "int (length data div bytesPerFrame c) < 2 ^ 64"
    by (rule int_less_power)
  then have b: "u64 (int (length data div bytesPerFrame c)) = length data div bytesPerFrame c"
    by (simp add: u64_id)
  show ?thesis
    unfolding framesAccepted_def a b framesAcceptable_valid[OF c v] by simp
qed

lemma u64_le: "u64 (int n) \<le> n"
proof -
  have "int n mod 2 ^ 64 \<le> int n"
    by (rule zmod_le_nonneg_dividend) simp
  then show ?thesis
    unfolding u64_def by linarith
qed

lemma framesAccepted_fits:
  "framesAccepted c s (int (length data)) * bytesPerFrame c \<le> length data"
proof -
  let ?b = "bytesPerFrame c"
  have "framesAccepted c s (int (length data)) \<le> u64 (int (u64 (int (length data)) div ?b))"
    unfolding framesAccepted_def by simp
  also have "\<dots> \<le> u64 (int (length data)) div ?b"
    by (rule u64_le)
  also have "\<dots> \<le> length data div ?b"
    by (intro div_le_mono u64_le)
  finally have "framesAccepted c s (int (length data)) * ?b \<le> length data div ?b * ?b"
    by (rule mult_le_mono1)
  also have "\<dots> \<le> length data"
    by simp
  finally show ?thesis .
qed

lemma secondInPeriod_valid:
  "valid c s \<Longrightarrow> \<exists>ns. secondInPeriod s now = Inr ns \<and> ns < m_period s"
  by (simp add: secondInPeriod_def valid_def)

lemma valid_restartOnWrap:
  assumes c: "config_ok c" and v: "valid c s"
  shows "valid c (restartOnWrap s ns)"
proof -
  have "0 < NDOWN c" using c unfolding config_ok_def by simp
  then show ?thesis
    using v unfolding valid_def restartOnWrap_def by simp
qed


lemma writeData_returns:
  assumes c: "config_ok c" and v: "valid c s"
    and m: "QT_NO_DEBUG c \<or> length data mod bytesPerFrame c = 0"
  shows "\<exists>ns s' ks. secondInPeriod s now = Inr ns \<and>
           writeData c s now data
             = Some (Inr (s', Lock # map FramesWritten ks @ [Unlock], int (length data))) \<and>
           valid c s' \<and> kin (restartOnWrap s (s32 (int ns))) \<le> kin s' \<and>
           m_ns s' = s32 (int ns) \<and> isOpen s' = isOpen s"
proof -
  obtain ns where ns: "secondInPeriod s now = Inr ns"
    using secondInPeriod_valid[OF v] by blast
  let ?s1 = "restartOnWrap s (s32 (int ns))"
  let ?fa = "framesAccepted c ?s1 (int (length data))"
  have b: "bytesPerFrame c \<noteq> 0" using c unfolding config_ok_def by simp
  have t: "QT_NO_DEBUG c \<or> crem (int (length data)) (int (bytesPerFrame c)) = 0"
    unfolding crem_nat using m by simp
  have v1: "valid c ?s1" by (rule valid_restartOnWrap[OF c v])
  obtain s' ks where lp: "frames_loop c data ?fa ?s1 [] ?fa
                            = Some (Inr (s', [] @ map FramesWritten ks))"
    and v': "valid c s'" and k': "kin ?s1 \<le> kin s'"
    and n': "m_ns s' = m_ns ?s1" and o': "isOpen s' = isOpen ?s1"
    using frames_loop_valid[OF c framesAccepted_fits v1 order_refl] by blast
  have w: "writeData c s now data
             = Some (Inr (s', Lock # map FramesWritten ks @ [Unlock], int (length data)))"
    unfolding writeData_def ns using b t lp by (simp add: Let_def)
  have "m_ns ?s1 = s32 (int ns)" "isOpen ?s1 = isOpen s"
    by (simp_all add: restartOnWrap_def)
  then show ?thesis
    using ns w v' k' n' o' by auto
qed

lemma writeData_valid:
  assumes c: "config_ok c" and v: "valid c s" and m: "length data mod bytesPerFrame c = 0"
  shows "\<exists>ns s' ks. secondInPeriod s now = Inr ns \<and>
           writeData c s now data
             = Some (Inr (s', Lock # map FramesWritten ks @ [Unlock], int (length data))) \<and>
           valid c s' \<and> kin (restartOnWrap s (s32 (int ns))) \<le> kin s' \<and>
           m_ns s' = s32 (int ns) \<and> isOpen s' = isOpen s"
  using writeData_returns[OF c v disjI2[OF m]] .

section \<open>Rotation of the buffer\<close>

lemma std_rotate_left:
  "n \<le> length xs \<Longrightarrow> std_rotate n xs = Inr (rotate n xs)"
proof (cases "n = length xs")
  case True
  then show ?thesis by (simp add: std_rotate_def)
next
  case False
  assume "n \<le> length xs"
  with False have "n mod length xs = n" by simp
  then have "rotate n xs = drop n xs @ take n xs"
    by (simp add: rotate_drop_take)
  with \<open>n \<le> length xs\<close> show ?thesis by (simp add: std_rotate_def)
qed

lemma std_rotate_right:
  assumes "n \<le> length xs"
  shows "\<exists>ys. std_rotate_reverse n xs = Inr ys \<and> rotate n ys = xs \<and> length ys = length xs"
proof -
  let ?ys = "drop (length xs - n) xs @ take (length xs - n) xs"
  have "std_rotate_reverse n xs = Inr (rev (drop n (rev xs) @ take n (rev xs)))"
    using assms by (simp add: std_rotate_reverse_def std_rotate_def)
  also have "rev (drop n (rev xs) @ take n (rev xs)) = ?ys"
    by (simp add: rev_take rev_drop)
  finally have a: "std_rotate_reverse n xs = Inr ?ys" .
  have "length (drop (length xs - n) xs) = n"
    using assms by simp
  then have "rotate n ?ys = take (length xs - n) xs @ drop (length xs - n) xs"
    by (metis rotate_append)
  then have b: "rotate n ?ys = xs" by simp
  have "length ?ys = length xs" by simp
  with a b show ?thesis by blast
qed

lemma msInPeriod_valid:
  assumes "valid c s"
  shows "\<exists>ms. msInPeriod s now = Inr ms"
proof -
  have "0 < m_period s" "m_period s * 1000 < 2 ^ 32"
    using assms unfolding valid_def by auto
  then have "int (m_period s * 1000) < 2 ^ 32" "0 < m_period s"
    by (auto intro: int_less_power)
  then have "u32 (int (m_period s) * 1000) = m_period s * 1000"
    by (simp add: u32_id nat_mult_distrib)
  then show ?thesis
    using \<open>0 < m_period s\<close> by (simp add: msInPeriod_def Let_def)
qed

lemma resetBufferPosition_result:
  assumes c: "config_ok c" and v: "valid c s"
  shows "\<exists>ms ns buf. msInPeriod s now = Inr ms \<and> secondInPeriod s now' = Inr ns \<and>
           resetBufferPosition s now now'
             = Inr (s\<lparr>kin := alignedKin s ms, m_bufferPos := 0, m_ns := s32 (int ns), d2 := buf\<rparr>,
                    [Lock, Unlock]) \<and>
           length buf = length (d2 s) \<and>
           (alignedKin s ms < kin s \<longrightarrow> buf = rotate (nat (kin s - alignedKin s ms)) (d2 s)) \<and>
           (kin s \<le> alignedKin s ms \<longrightarrow> rotate (nat (alignedKin s ms - kin s)) buf = d2 s)"
proof -
  obtain ms where ms: "msInPeriod s now = Inr ms"
    using msInPeriod_valid[OF v] by blast
  obtain ns where ns: "secondInPeriod s now' = Inr ns"
    using secondInPeriod_valid[OF v] by blast
  let ?K = "alignedKin s ms"
  have k: "0 \<le> kin s" "kin s \<le> int (length (d2 s))"
    and len: "length (d2 s) = JS8_NTMAX c * 12000"
    using v unfolding valid_def by auto
  have cap: "length (d2 s) < 2 ^ 31"
    using c len unfolding config_ok_def by auto
  then have icap: "int (length (d2 s)) < 2 ^ 31" by (rule int_less_power)
  then have ucap: "u32 (int (length (d2 s))) = length (d2 s)"
    by (simp add: u32_id)
  have K: "0 \<le> ?K" "?K \<le> int (length (d2 s))"
    unfolding alignedKin_def by simp_all
  then have "s32 ?K = ?K"
    using icap by (intro s32_nat) auto
  then have newKin: "s32 (int (min (u32 (int ms * int (m_frameRate s)) div 1000)
                                  (u32 (int (length (d2 s)))))) = ?K"
    unfolding ucap alignedKin_def .
  have r: "\<exists>buf. (if ?K - kin s < 0 then std_rotate (nat (- (?K - kin s))) (d2 s)
                   else std_rotate_reverse (nat (?K - kin s)) (d2 s)) = Inr buf \<and>
           length buf = length (d2 s) \<and>
           (?K < kin s \<longrightarrow> buf = rotate (nat (kin s - ?K)) (d2 s)) \<and>
           (kin s \<le> ?K \<longrightarrow> rotate (nat (?K - kin s)) buf = d2 s)"
  proof (cases "?K < kin s")
    case True
    have "nat (kin s - ?K) \<le> length (d2 s)"
      using K k by linarith
    then have "std_rotate (nat (kin s - ?K)) (d2 s) = Inr (rotate (nat (kin s - ?K)) (d2 s))"
      by (rule std_rotate_left)
    then show ?thesis using True by simp
  next
    case False
    have "nat (?K - kin s) \<le> length (d2 s)"
      using K k by linarith
    then obtain ys where "std_rotate_reverse (nat (?K - kin s)) (d2 s) = Inr ys"
      "rotate (nat (?K - kin s)) ys = d2 s" "length ys = length (d2 s)"
      using std_rotate_right by blast
    then show ?thesis using False by simp
  qed
  then obtain buf where b: "(if ?K - kin s < 0 then std_rotate (nat (- (?K - kin s))) (d2 s)
                   else std_rotate_reverse (nat (?K - kin s)) (d2 s)) = Inr buf"
    and lb: "length buf = length (d2 s)"
    and rl: "?K < kin s \<longrightarrow> buf = rotate (nat (kin s - ?K)) (d2 s)"
    and rr: "kin s \<le> ?K \<longrightarrow> rotate (nat (?K - kin s)) buf = d2 s"
    by blast
  have "resetBufferPosition s now now'
          = Inr (s\<lparr>kin := ?K, m_bufferPos := 0, m_ns := s32 (int ns), d2 := buf\<rparr>, [Lock, Unlock])"
    unfolding resetBufferPosition_def ms ns sum.case Let_def newKin using b by simp
  with ms ns lb rl rr show ?thesis by blast
qed

section \<open>The sample state is well formed\<close>

lemma demo_config_ok: "config_ok demo_config"
  by (simp add: config_ok_def demo_config_def)

lemma demo_state_valid: "valid demo_config demo_state"
  by (simp add: valid_def demo_config_def demo_state_def)

section \<open>Well-formed states are kept\<close>

lemma valid_resetBufferPosition:
  assumes c: "config_ok c" and v: "valid c s"
  shows "\<exists>ms s'. msInPeriod s now = Inr ms \<and>
           resetBufferPosition s now now' = Inr (s', [Lock, Unlock]) \<and> valid c s' \<and>
           kin s' = alignedKin s ms \<and> m_bufferPos s' = 0 \<and> isOpen s' = isOpen s \<and>
           length (d2 s') = length (d2 s)"
proof -
  obtain ms ns buf where ms: "msInPeriod s now = Inr ms"
    and r: "resetBufferPosition s now now'
          = Inr (s\<lparr>kin := alignedKin s ms, m_bufferPos := 0, m_ns := s32 (int ns), d2 := buf\<rparr>,
                 [Lock, Unlock])"
    and lb: "length buf = length (d2 s)"
    using resetBufferPosition_result[OF c v] by blast
  let ?s' = "s\<lparr>kin := alignedKin s ms, m_bufferPos := 0, m_ns := s32 (int ns), d2 := buf\<rparr>"
  have nd: "0 < NDOWN c" using c unfolding config_ok_def by simp
  have K: "0 \<le> alignedKin s ms" "alignedKin s ms \<le> int (length (d2 s))"
    unfolding alignedKin_def by simp_all
  have "valid c ?s'"
    using v lb nd K unfolding valid_def by simp
  with ms r lb show ?thesis by simp
qed

lemma valid_resetBufferContent:
  "valid c s \<Longrightarrow> valid c (fst (resetBufferContent s))"
  by (simp add: valid_def resetBufferContent_def)

lemma valid_reset:
  assumes c: "config_ok c" and v: "valid c s"
  shows "\<exists>s'. reset c s now now' = Inr (s', if JS8_RING_BUFFER c then [Lock, Unlock, Lock, Unlock] else [], isOpen s) \<and>
           valid c s' \<and> m_bufferPos s' = 0"
proof (cases "JS8_RING_BUFFER c")
  case True
  obtain s1 where r: "resetBufferPosition s now now' = Inr (s1, [Lock, Unlock])"
    and v1: "valid c s1" and p1: "m_bufferPos s1 = 0" and o1: "isOpen s1 = isOpen s"
    using valid_resetBufferPosition[OF c v] by blast
  let ?s2 = "fst (resetBufferContent s1)"
  have "reset c s now now' = Inr (?s2, [Lock, Unlock, Lock, Unlock], isOpen s)"
    using True r o1 by (simp add: reset_def clear_def resetBufferContent_def)
  moreover have "valid c ?s2" by (rule valid_resetBufferContent[OF v1])
  moreover have "m_bufferPos ?s2 = 0" using p1 by (simp add: resetBufferContent_def)
  ultimately show ?thesis using True by simp
next
  case False
  have nd: "0 < NDOWN c" using c unfolding config_ok_def by simp
  have "reset c s now now' = Inr (s\<lparr>kin := 0, m_bufferPos := 0\<rparr>, [], isOpen s)"
    using False by (simp add: reset_def clear_def)
  moreover have "valid c (s\<lparr>kin := 0, m_bufferPos := 0\<rparr>)"
    using v nd unfolding valid_def by simp
  ultimately show ?thesis using False by simp
qed

lemma demo_second: "secondInPeriod demo_state 65000 = Inr 5"
  by (simp add: secondInPeriod_def demo_state_def u32_def cdiv_def crem_def)

section \<open>A new period\<close>

lemma decimate_keeps:
  "decimate c s i = Inr s' \<Longrightarrow> m_ns s' = m_ns s"
proof (induction c s i rule: decimate.induct)
  case (1 c s i)
  show ?case
  proof (cases "i < m_samplesPerFFT s \<and> 0 \<le> kin s \<and> nat (kin s) < length (d2 s)")
    case True
    let ?s1 = "s\<lparr>d2 := (d2 s)[nat (kin s) :=
                          downSample c (take (NDOWN c) (drop (i * NDOWN c) (m_buffer s)))],
                kin := kin s + 1\<rparr>"
    have "decimate c ?s1 (i + 1) = Inr s'"
      using True "1.prems" by (subst (asm) decimate.simps) simp
    then have "m_ns s' = m_ns ?s1"
      using True by (intro "1.IH") simp_all
    then show ?thesis by simp
  next
    case False
    then show ?thesis
      using "1.prems" by (subst (asm) decimate.simps) (auto split: if_splits)
  qed
qed

lemma drain_keeps:
  assumes "drain c s = Inr (s', ev)"
  shows "m_ns s' = m_ns s"
proof (cases "m_bufferPos s = windowSize c s")
  case False
  then show ?thesis using assms by (simp add: drain_def)
next
  case full: True
  show ?thesis
  proof (cases "0 \<le> kin s \<and> kin s < kinLimit c s")
    case False
    then have "drain c s = Inr (s\<lparr>m_bufferPos := 0\<rparr>, [FramesWritten (kin s)])"
      using full by (intro drain_skip) simp_all
    with assms show ?thesis by auto
  next
    case True
    then obtain s1 where d: "decimate c s 0 = Inr s1" and "s' = s1\<lparr>m_bufferPos := 0\<rparr>"
      using assms full by (auto simp: drain_def split: sum.splits)
    then show ?thesis using decimate_keeps[OF d] by simp
  qed
qed

lemma step_keeps:
  assumes "step c data fa s r = Inr (s', ev, r')"
  shows "m_ns s' = m_ns s"
proof -
  obtain buf pos where "drain c (s\<lparr>m_buffer := buf, m_bufferPos := pos\<rparr>) = Inr (s', ev)"
    using assms unfolding step_def Let_def by (auto split: sum.splits)
  then show ?thesis using drain_keeps by fastforce
qed

lemma frames_loop_keeps_aux:
  assumes "frames_loop c data fa s ev r = Some y"
  shows "\<forall>s' ev'. y = Inr (s', ev') \<longrightarrow> m_ns s' = m_ns s"
  using assms
proof (induct rule: frames_loop.raw_induct)
  case (1 loop c data fa s ev r y)
  show ?case
  proof (cases "r = 0")
    case True
    then show ?thesis using 1(2) by auto
  next
    case False
    show ?thesis
    proof (intro allI impI)
      fix s' ev'
      assume y: "y = Inr (s', ev')"
      obtain s1 ev1 r1 where st: "step c data fa s r = Inr (s1, ev1, r1)"
        and lp: "loop c data fa s1 (ev @ ev1) r1 = Some y"
        using False 1(2) y by (auto split: sum.splits)
      have "frames_loop c data fa s1 (ev @ ev1) r1 = Some y"
        using False st 1(3) by (subst (asm) frames_loop.simps) simp
      then have "m_ns s' = m_ns s1"
        using 1(1)[OF lp] y by simp
      then show "m_ns s' = m_ns s" using step_keeps[OF st] by simp
    qed
  qed
next
  show "frames_loop c data fa s ev r = Some y" by (rule assms)
qed

lemma frames_loop_keeps:
  "frames_loop c data fa s ev r = Some (Inr (s', ev')) \<Longrightarrow> m_ns s' = m_ns s"
  using frames_loop_keeps_aux by blast


lemma writeData_records_second:
  assumes "secondInPeriod s now = Inr ns"
    and "writeData c s now data = Some (Inr (s', ev, n))"
  shows "m_ns s' = s32 (int ns)"
proof -
  let ?s1 = "restartOnWrap s (s32 (int ns))"
  let ?fa = "framesAccepted c ?s1 (int (length data))"
  obtain ev' where "frames_loop c data ?fa ?s1 [] ?fa = Some (Inr (s', ev'))"
    using assms(2) unfolding writeData_def assms(1)
    by (auto simp: Let_def split: if_splits option.splits sum.splits)
  then have "m_ns s' = m_ns ?s1" by (rule frames_loop_keeps)
  then show ?thesis by (simp add: restartOnWrap_def)
qed

lemma writeData_no_frames:
  assumes "secondInPeriod s now = Inr ns" and "0 < bytesPerFrame c"
  shows "writeData c s now [] = Some (Inr (restartOnWrap s (s32 (int ns)), [Lock, Unlock], 0))"
proof -
  have "framesAccepted c (restartOnWrap s (s32 (int ns))) 0 = 0"
    by (simp add: framesAccepted_def u64_def)
  moreover have "frames_loop c [] 0 (restartOnWrap s (s32 (int ns))) [] 0
                   = Some (Inr (restartOnWrap s (s32 (int ns)), []))"
    by (subst frames_loop.simps) simp
  ultimately show ?thesis
    unfolding writeData_def assms(1) using assms(2) by (simp add: crem_def cdiv_def)
qed

text \<open>
  C4. When the second in the period computed by a write is below the recorded one, the
  write sets \<open>kin\<close> and the window position to 0 and records the new second before it
  looks at the input: it behaves as the same write on the restarted state, a write of no
  frames returns that restarted state, and every state it returns holds the new second.
\<close>

theorem writeData_restarts_on_wrap:
  assumes "secondInPeriod s now = Inr ns" and "s32 (int ns) < m_ns s"
  shows "restartOnWrap s (s32 (int ns)) = s\<lparr>kin := 0, m_bufferPos := 0, m_ns := s32 (int ns)\<rparr> \<and>
         writeData c s now data
           = writeData c (s\<lparr>kin := 0, m_bufferPos := 0, m_ns := s32 (int ns)\<rparr>) now data \<and>
         (0 < bytesPerFrame c \<longrightarrow>
            writeData c s now []
              = Some (Inr (s\<lparr>kin := 0, m_bufferPos := 0, m_ns := s32 (int ns)\<rparr>,
                           [Lock, Unlock], 0))) \<and>
         (\<forall>s' ev n. writeData c s now data = Some (Inr (s', ev, n))
            \<longrightarrow> m_ns s' = s32 (int ns))"
proof -
  let ?n = "s32 (int ns)"
  let ?s0 = "s\<lparr>kin := 0, m_bufferPos := 0, m_ns := ?n\<rparr>"
  have r: "restartOnWrap s ?n = ?s0"
    using assms(2) by (simp add: restartOnWrap_def)
  have "secondInPeriod ?s0 now = secondInPeriod s now"
    by (simp add: secondInPeriod_def)
  then have n0: "secondInPeriod ?s0 now = Inr ns"
    using assms(1) by simp
  have r0: "restartOnWrap ?s0 ?n = ?s0"
    by (simp add: restartOnWrap_def)
  have w: "writeData c s now data = writeData c ?s0 now data"
    by (simp only: writeData_def assms(1) n0 sum.case r r0)
  have e: "0 < bytesPerFrame c \<longrightarrow>
             writeData c s now [] = Some (Inr (?s0, [Lock, Unlock], 0))"
    using writeData_no_frames[OF assms(1)] r by simp
  have "\<forall>s' ev n. writeData c s now data = Some (Inr (s', ev, n)) \<longrightarrow> m_ns s' = ?n"
    using writeData_records_second[OF assms(1)] by blast
  with r w e show ?thesis by blast
qed

theorem writeData_restarts_on_wrap_witness:
  "secondInPeriod (demo_state\<lparr>m_ns := 59\<rparr>) 1200000 = Inr 0 \<and>
   s32 (int 0) < m_ns (demo_state\<lparr>m_ns := 59\<rparr>) \<and>
   writeData demo_config (demo_state\<lparr>m_ns := 59\<rparr>) 1200000 []
     = Some (Inr (demo_state\<lparr>kin := 0, m_bufferPos := 0, m_ns := 0\<rparr>, [Lock, Unlock], 0))"
proof -
  have a: "secondInPeriod (demo_state\<lparr>m_ns := 59\<rparr>) 1200000 = Inr 0"
    by (simp add: secondInPeriod_def demo_state_def u32_def cdiv_def crem_def)
  have b: "s32 (int 0) < m_ns (demo_state\<lparr>m_ns := 59\<rparr>)"
    by (simp add: s32_def)
  have c: "0 < bytesPerFrame demo_config"
    by (simp add: demo_config_def)
  from writeData_restarts_on_wrap[OF a b, of demo_config "[]"] c
  have "writeData demo_config (demo_state\<lparr>m_ns := 59\<rparr>) 1200000 []
          = Some (Inr (demo_state\<lparr>m_ns := 59\<rparr>
                         \<lparr>kin := 0, m_bufferPos := 0, m_ns := s32 (int 0)\<rparr>,
                       [Lock, Unlock], 0))"
    by blast
  then show ?thesis
    using a b by (simp add: s32_def)
qed

section \<open>Resynchronisation\<close>

lemma rotate_left_index:
  assumes "n \<le> length xs" and "i < length xs"
  shows "rotate n xs ! nat ((int i - int n) mod int (length xs)) = xs ! i"
proof -
  let ?N = "length xs"
  let ?j = "nat ((int i - int n) mod int ?N)"
  have N: "0 < int ?N" using assms(2) by (cases xs) simp_all
  have j0: "0 \<le> (int i - int n) mod int ?N"
    using N by simp
  have jN: "(int i - int n) mod int ?N < int ?N"
    using N by simp
  have j: "?j < ?N" using j0 jN by linarith
  have "int ((n + ?j) mod ?N) = (int n + (int i - int n) mod int ?N) mod int ?N"
    using j0 by (simp add: zmod_int)
  also have "\<dots> = (int n + (int i - int n)) mod int ?N"
    by (rule mod_add_right_eq)
  also have "\<dots> = int i"
    using assms(2) by simp
  finally have "(n + ?j) mod ?N = i" by linarith
  then show ?thesis
    using j by (simp add: nth_rotate)
qed

lemma rotate_right_index:
  assumes "rotate n ys = xs" and "i < length xs"
  shows "ys ! nat ((int i + int n) mod int (length xs)) = xs ! i"
proof -
  have l: "length ys = length xs" using assms(1) by (metis length_rotate)
  have "xs ! i = rotate n ys ! i" using assms(1) by simp
  also have "\<dots> = ys ! ((n + i) mod length ys)"
    using assms(2) l by (intro nth_rotate) simp
  also have "(n + i) mod length ys = nat ((int i + int n) mod int (length xs))"
  proof -
    have "int ((n + i) mod length xs) = (int i + int n) mod int (length xs)"
      by (simp add: zmod_int add.commute)
    then show ?thesis unfolding l by linarith
  qed
  finally show ?thesis by simp
qed

text \<open>
  C5. On a well-formed state whose clock offset \<open>ms\<close> times the frame rate fits 32 bits,
  \<open>resetBufferPosition\<close> (the spec's resynchronize) sets \<open>kin\<close> to the smaller of
  \<open>ms * frameRate div 1000\<close> and the capacity and the window position to 0. The buffer
  is rotated, not cleared: when \<open>kin\<close> goes down it is the old buffer rotated left by the
  difference, when \<open>kin\<close> goes up rotating it left by the difference gives the old buffer
  back, so it is the old one rotated right. Where both are indices of the buffer, the
  entry that was at the old \<open>kin\<close> is at the new one; in general the entry that was at
  index \<open>i\<close> is at index \<open>i + delta\<close> modulo the capacity.
\<close>

theorem resetBufferPosition_realigns:
  assumes "config_ok c" and "valid c s" and "msInPeriod s now = Inr ms"
    and "ms * m_frameRate s < 2 ^ 32"
  shows "\<exists>s' ev. resetBufferPosition s now now' = Inr (s', ev) \<and>
           kin s' = int (min (ms * m_frameRate s div 1000) (length (d2 s))) \<and>
           m_bufferPos s' = 0 \<and>
           (kin s' < kin s \<longrightarrow> d2 s' = rotate (nat (kin s - kin s')) (d2 s)) \<and>
           (kin s \<le> kin s' \<longrightarrow> rotate (nat (kin s' - kin s)) (d2 s') = d2 s) \<and>
           (kin s < int (length (d2 s)) \<and> kin s' < int (length (d2 s))
              \<longrightarrow> d2 s' ! nat (kin s') = d2 s ! nat (kin s)) \<and>
           (\<forall>i < length (d2 s).
              d2 s' ! nat ((int i + (kin s' - kin s)) mod int (length (d2 s))) = d2 s ! i)"
proof -
  obtain ms' ns buf where ms': "msInPeriod s now = Inr ms'"
    and r: "resetBufferPosition s now now'
          = Inr (s\<lparr>kin := alignedKin s ms', m_bufferPos := 0, m_ns := s32 (int ns), d2 := buf\<rparr>,
                 [Lock, Unlock])"
    and lb: "length buf = length (d2 s)"
    and rl: "alignedKin s ms' < kin s \<longrightarrow> buf = rotate (nat (kin s - alignedKin s ms')) (d2 s)"
    and rr: "kin s \<le> alignedKin s ms' \<longrightarrow> rotate (nat (alignedKin s ms' - kin s)) buf = d2 s"
    using resetBufferPosition_result[OF assms(1,2)] by blast
  have e: "ms' = ms" using ms' assms(3) by simp
  let ?K = "alignedKin s ms"
  let ?N = "length (d2 s)"
  have "int (ms * m_frameRate s) < 2 ^ 32"
    using assms(4) by (rule int_less_power)
  then have "u32 (int ms * int (m_frameRate s)) = ms * m_frameRate s"
    by (simp add: u32_id nat_mult_distrib)
  then have K: "?K = int (min (ms * m_frameRate s div 1000) ?N)"
    by (simp add: alignedKin_def)
  have k0: "0 \<le> kin s" using assms(2) unfolding valid_def by simp
  have K0: "0 \<le> ?K" unfolding alignedKin_def by simp
  have nth: "buf ! nat ?K = d2 s ! nat (kin s)" if a: "kin s < int ?N" "?K < int ?N"
  proof (cases "?K < kin s")
    case True
    then have "buf = rotate (nat (kin s - ?K)) (d2 s)" using rl e by simp
    moreover have "nat ?K < ?N" using a(2) K0 by linarith
    moreover have "(nat (kin s - ?K) + nat ?K) mod ?N = nat (kin s)"
      using True K0 a(1) by (simp add: nat_diff_distrib nat_less_iff)
    ultimately show ?thesis by (simp add: nth_rotate)
  next
    case False
    then have "rotate (nat (?K - kin s)) buf = d2 s" using rr e by simp
    then have "d2 s ! nat (kin s) = rotate (nat (?K - kin s)) buf ! nat (kin s)" by simp
    also have "\<dots> = buf ! ((nat (?K - kin s) + nat (kin s)) mod length buf)"
      using a(1) k0 lb by (intro nth_rotate) linarith
    also have "(nat (?K - kin s) + nat (kin s)) mod length buf = nat ?K"
      using False k0 a(2) lb by (simp add: nat_diff_distrib nat_less_iff)
    finally show ?thesis by simp
  qed
  have ix: "buf ! nat ((int i + (?K - kin s)) mod int ?N) = d2 s ! i" if i: "i < ?N" for i
  proof (cases "?K < kin s")
    case True
    then have b: "buf = rotate (nat (kin s - ?K)) (d2 s)" using rl e by simp
    have n: "nat (kin s - ?K) \<le> ?N"
      using K0 assms(2) unfolding valid_def by linarith
    have "int i + (?K - kin s) = int i - int (nat (kin s - ?K))"
      using True by simp
    then show ?thesis
      unfolding b using rotate_left_index[OF n i] by simp
  next
    case False
    then have b: "rotate (nat (?K - kin s)) buf = d2 s" using rr e by simp
    have "int i + (?K - kin s) = int i + int (nat (?K - kin s))"
      using False by simp
    then show ?thesis
      using rotate_right_index[OF b i] by simp
  qed
  let ?s' = "s\<lparr>kin := ?K, m_bufferPos := 0, m_ns := s32 (int ns), d2 := buf\<rparr>"
  have "resetBufferPosition s now now' = Inr (?s', [Lock, Unlock])"
    using r e by simp
  moreover have "kin ?s' = int (min (ms * m_frameRate s div 1000) ?N)"
    using K by simp
  moreover have "m_bufferPos ?s' = 0" by simp
  moreover have "kin ?s' < kin s \<longrightarrow> d2 ?s' = rotate (nat (kin s - kin ?s')) (d2 s)"
    using rl e by simp
  moreover have "kin s \<le> kin ?s' \<longrightarrow> rotate (nat (kin ?s' - kin s)) (d2 ?s') = d2 s"
    using rr e by simp
  moreover have "kin s < int ?N \<and> kin ?s' < int ?N \<longrightarrow> d2 ?s' ! nat (kin ?s') = d2 s ! nat (kin s)"
    using nth by simp
  moreover have "\<forall>i < ?N. d2 ?s' ! nat ((int i + (kin ?s' - kin s)) mod int ?N) = d2 s ! i"
    using ix by simp
  ultimately show ?thesis by blast
qed

lemma demo_ms: "msInPeriod demo_state 64000 = Inr 4000"
  by (simp add: msInPeriod_def demo_state_def u32_def cdiv_def crem_def)

theorem resetBufferPosition_realigns_witness:
  "config_ok demo_config \<and> valid demo_config demo_state \<and>
   msInPeriod demo_state 64000 = Inr 4000 \<and> 4000 * m_frameRate demo_state < 2 ^ 32 \<and>
   (\<exists>s' ev. resetBufferPosition demo_state 64000 64000 = Inr (s', ev) \<and>
      kin s' = 48000 \<and> m_bufferPos s' = 0 \<and> d2 s' = rotate 12000 (d2 demo_state))"
proof -
  have f: "4000 * m_frameRate demo_state < 2 ^ 32"
    by (simp add: demo_state_def)
  obtain s' ev where "resetBufferPosition demo_state 64000 64000 = Inr (s', ev)"
    and k: "kin s' = int (min (4000 * m_frameRate demo_state div 1000) (length (d2 demo_state)))"
    and "m_bufferPos s' = 0"
    and r: "kin s' < kin demo_state \<longrightarrow> d2 s' = rotate (nat (kin demo_state - kin s')) (d2 demo_state)"
    using resetBufferPosition_realigns[OF demo_config_ok demo_state_valid demo_ms f,
            where now' = 64000]
    by blast
  moreover have k': "kin s' = 48000"
    using k by (simp add: demo_state_def)
  moreover have "d2 s' = rotate 12000 (d2 demo_state)"
    using r k' by (simp add: demo_state_def)
  ultimately show ?thesis
    using demo_config_ok demo_state_valid demo_ms f by blast
qed

section \<open>Frames that do not fit\<close>

lemma store_frames:
  assumes "store c data (k * bytesPerFrame c) n pos buf = Inr buf'"
  shows "buf' = take pos buf @ map (frameSample c data) [k..<k + n] @ drop (pos + n) buf"
proof -
  have "map (\<lambda>j. sampleOf c (take (bytesPerFrame c)
                (drop (k * bytesPerFrame c + j * bytesPerFrame c) data))) [0..<n]
          = map (\<lambda>j. frameSample c data (j + k)) [0..<n]"
    by (simp add: frameSample_def add_mult_distrib add.commute)
  also have "\<dots> = map (frameSample c data) (map (\<lambda>j. j + k) [0..<n])"
    by (simp add: comp_def)
  also have "\<dots> = map (frameSample c data) [k..<k + n]"
    by (simp only: map_add_upt add.commute)
  finally show ?thesis
    using assms by (auto simp: store_def split: if_splits)
qed

lemma step_effect:
  assumes c: "config_ok c" and v: "valid c s" and r: "0 < r" "r \<le> fa"
    and d: "fa * bytesPerFrame c \<le> length data"
  defines "n \<equiv> min (m_samplesPerFFT s * NDOWN c - m_bufferPos s) r"
  shows "\<exists>s' ks. step c data fa s r = Inr (s', map FramesWritten ks, r - n) \<and> valid c s' \<and>
           m_samplesPerFFT s' = m_samplesPerFFT s \<and>
           m_buffer s' = take (m_bufferPos s) (m_buffer s)
                         @ map (frameSample c data) [fa - r..<fa - r + n]
                         @ drop (m_bufferPos s + n) (m_buffer s) \<and>
           length ks = (m_bufferPos s + n) div (m_samplesPerFFT s * NDOWN c) \<and>
           m_bufferPos s' = (m_bufferPos s + n) mod (m_samplesPerFFT s * NDOWN c)"
proof -
  let ?W = "m_samplesPerFFT s * NDOWN c"
  obtain buf where lb: "length buf = length (m_buffer s)"
    and sb: "store c data ((fa - r) * bytesPerFrame c) n (m_bufferPos s) (m_buffer s) = Inr buf"
    and st: "step c data fa s r =
      (case drain c (s\<lparr>m_buffer := buf, m_bufferPos := m_bufferPos s + n\<rparr>) of
         Inl e \<Rightarrow> Inl e | Inr (s', ev) \<Rightarrow> Inr (s', ev, r - n))"
    using step_unfold[OF c v r d] unfolding n_def by blast
  have bf: "buf = take (m_bufferPos s) (m_buffer s)
                  @ map (frameSample c data) [fa - r..<fa - r + n]
                  @ drop (m_bufferPos s + n) (m_buffer s)"
    using sb by (rule store_frames)
  let ?s1 = "s\<lparr>m_buffer := buf, m_bufferPos := m_bufferPos s + n\<rparr>"
  have posW: "m_bufferPos s < ?W"
    using v unfolding valid_def by auto
  have n0: "0 < n" "n \<le> r" "m_bufferPos s + n \<le> ?W"
    using posW r(1) unfolding n_def by auto
  have W1: "windowSize c ?s1 = ?W"
    using windowSize_valid[OF v] by (simp add: windowSize_def)
  have K1: "kinLimit c ?s1 = kinLimit c s"
    by (simp add: kinLimit_def)
  have nd: "0 < NDOWN c"
    using c unfolding config_ok_def by simp
  have W0: "?W \<noteq> 0" using posW by linarith
  have dW: "?W div ?W = 1" "?W mod ?W = 0"
    using W0 by (rule div_self, intro mod_self)
  show ?thesis
  proof (cases "m_bufferPos s + n = ?W")
    case False
    then have dr: "drain c ?s1 = Inr (?s1, [])"
      using W1 by (intro drain_not_full) simp
    have lt: "m_bufferPos s + n < ?W" using False n0(3) by linarith
    have "valid c ?s1"
      using v lt lb unfolding valid_def by simp
    moreover have "step c data fa s r = Inr (?s1, map FramesWritten [], r - n)"
      using st dr by simp
    moreover have "(m_bufferPos s + n) div ?W = 0" "(m_bufferPos s + n) mod ?W = m_bufferPos s + n"
      using lt by simp_all
    ultimately show ?thesis
      using bf by (intro exI[of _ ?s1] exI[of _ "[]"]) simp
  next
    case full: True
    have v1: "valid c (s\<lparr>m_buffer := buf, m_bufferPos := 0\<rparr>)"
      using v lb nd unfolding valid_def by simp
    have dm: "(m_bufferPos s + n) div ?W = 1" "(m_bufferPos s + n) mod ?W = 0"
      unfolding full by (rule dW)+
    show ?thesis
    proof (cases "0 \<le> kin s \<and> kin s < kinLimit c s")
      case False
      let ?s' = "?s1\<lparr>m_bufferPos := 0\<rparr>"
      have "drain c ?s1 = Inr (?s', [FramesWritten (kin ?s1)])"
        using W1 K1 full False by (intro drain_skip) simp_all
      then have "step c data fa s r = Inr (?s', map FramesWritten [kin s], r - n)"
        using st by simp
      moreover have "valid c ?s'" using v1 by simp
      ultimately show ?thesis
        using bf dm by (intro exI[of _ ?s'] exI[of _ "[kin s]"]) simp
    next
      case True
      let ?s' = "(decimated c ?s1 0)\<lparr>m_bufferPos := 0\<rparr>"
      have kl: "kin s < int (JS8_NTMAX c * 12000) - int (m_samplesPerFFT s)"
        using True kinLimit_valid[OF c v] by simp
      have len: "length (d2 s) = JS8_NTMAX c * 12000"
        using v unfolding valid_def by auto
      have "nat (kin s) + m_samplesPerFFT s \<le> length (d2 s)"
        using kl True len by linarith
      then have fit: "nat (kin ?s1) + m_samplesPerFFT ?s1 \<le> length (d2 ?s1)"
        by simp
      have dr: "drain c ?s1 = Inr (?s', [FramesWritten (kin ?s1 + int (m_samplesPerFFT ?s1))])"
        using W1 K1 full True fit by (intro drain_decimate) simp_all
      have eq: "?s' = (decimated c (s\<lparr>m_buffer := buf, m_bufferPos := 0\<rparr>) 0)\<lparr>m_bufferPos := 0\<rparr>"
        by (simp add: decimated_def)
      have "kinLimit c (s\<lparr>m_buffer := buf, m_bufferPos := 0\<rparr>) = kinLimit c s"
        by (simp add: kinLimit_def)
      then have vd: "valid c ?s'"
        unfolding eq using True by (intro valid_decimated[OF c v1]) simp
      have f: "m_samplesPerFFT ?s' = m_samplesPerFFT s" "m_buffer ?s' = buf" "m_bufferPos ?s' = 0"
        by (simp_all add: decimated_def)
      have "step c data fa s r
              = Inr (?s', map FramesWritten [kin s + int (m_samplesPerFFT s)], r - n)"
        using st dr by simp
      then show ?thesis
        using vd f bf dm
        by (intro exI[of _ ?s'] exI[of _ "[kin s + int (m_samplesPerFFT s)]"]) simp
    qed
  qed
qed


lemma div_window: "0 < (w::nat) \<Longrightarrow> (w + x) div w = Suc (x div w)"
  using div_add_self1[of w x] by simp

lemma mod_window: "(w + x) mod w = x mod (w::nat)"
  by simp

lemma frames_loop_effect:
  assumes c: "config_ok c" and d: "fa * bytesPerFrame c \<le> length data"
  shows "valid c s \<Longrightarrow> r \<le> fa \<Longrightarrow>
         \<exists>s' ks. frames_loop c data fa s ev r = Some (Inr (s', ev @ map FramesWritten ks)) \<and>
           valid c s' \<and> m_samplesPerFFT s' = m_samplesPerFFT s \<and>
           length ks = (m_bufferPos s + r) div (m_samplesPerFFT s * NDOWN c) \<and>
           m_bufferPos s' = (m_bufferPos s + r) mod (m_samplesPerFFT s * NDOWN c) \<and>
           take ((m_bufferPos s + r) mod (m_samplesPerFFT s * NDOWN c)) (m_buffer s')
             = drop ((m_bufferPos s + r) div (m_samplesPerFFT s * NDOWN c)
                       * (m_samplesPerFFT s * NDOWN c))
                 (take (m_bufferPos s) (m_buffer s) @ map (frameSample c data) [fa - r..<fa])"
proof (induction r arbitrary: s ev rule: less_induct)
  case (less r)
  let ?W = "m_samplesPerFFT s * NDOWN c"
  let ?pos = "m_bufferPos s"
  let ?F = "frameSample c data"
  have posW: "?pos < ?W" and Wbuf: "?W \<le> length (m_buffer s)"
    using less.prems(1) unfolding valid_def by auto
  have posL: "?pos \<le> length (m_buffer s)" using posW Wbuf by linarith
  show ?case
  proof (cases "r = 0")
    case True
    have "frames_loop c data fa s ev r = Some (Inr (s, ev @ map FramesWritten []))"
      using True by (subst frames_loop.simps) simp
    moreover have "(?pos + r) div ?W = 0" "(?pos + r) mod ?W = ?pos"
      using True posW by simp_all
    ultimately show ?thesis
      using less.prems(1) True by (intro exI[of _ s] exI[of _ "[]"]) simp
  next
    case False
    then have r0: "0 < r" by simp
    define n where "n = min (?W - ?pos) r"
    have n0: "0 < n" "n \<le> r" "?pos + n \<le> ?W"
      using posW r0 unfolding n_def by auto
    obtain s1 ks1 where st: "step c data fa s r = Inr (s1, map FramesWritten ks1, r - n)"
      and v1: "valid c s1" and w1: "m_samplesPerFFT s1 = m_samplesPerFFT s"
      and b1: "m_buffer s1 = take ?pos (m_buffer s) @ map ?F [fa - r..<fa - r + n]
                             @ drop (?pos + n) (m_buffer s)"
      and l1: "length ks1 = (?pos + n) div ?W"
      and p1: "m_bufferPos s1 = (?pos + n) mod ?W"
      using step_effect[OF c less.prems(1) r0 less.prems(2) d] unfolding n_def by blast
    have r1: "r - n < r" using n0 r0 by linarith
    have r1fa: "r - n \<le> fa" using less.prems(2) by linarith
    obtain s' ks' where lp: "frames_loop c data fa s1 (ev @ map FramesWritten ks1) (r - n)
          = Some (Inr (s', (ev @ map FramesWritten ks1) @ map FramesWritten ks'))"
      and v': "valid c s'" and w': "m_samplesPerFFT s' = m_samplesPerFFT s1"
      and l': "length ks' = (m_bufferPos s1 + (r - n)) div (m_samplesPerFFT s1 * NDOWN c)"
      and p': "m_bufferPos s' = (m_bufferPos s1 + (r - n)) mod (m_samplesPerFFT s1 * NDOWN c)"
      and t': "take ((m_bufferPos s1 + (r - n)) mod (m_samplesPerFFT s1 * NDOWN c)) (m_buffer s')
             = drop ((m_bufferPos s1 + (r - n)) div (m_samplesPerFFT s1 * NDOWN c)
                       * (m_samplesPerFFT s1 * NDOWN c))
                 (take (m_bufferPos s1) (m_buffer s1) @ map ?F [fa - (r - n)..<fa])"
      using less.IH[OF r1 v1 r1fa] by blast
    have run: "frames_loop c data fa s ev r
            = Some (Inr (s', ev @ map FramesWritten (ks1 @ ks')))"
      using False st lp by (subst frames_loop.simps) simp
    have sp: "[fa - r..<fa] = [fa - r..<fa - r + n] @ [fa - (r - n)..<fa]"
    proof -
      have e: "fa - (r - n) = fa - r + n" using n0(2) less.prems(2) by linarith
      have "fa - r + (n + (r - n)) = fa" using n0(2) less.prems(2) by linarith
      then have "[fa - r..<fa] = [fa - r..<fa - r + n + (r - n)]"
        by (simp add: add.assoc)
      also have "\<dots> = [fa - r..<fa - r + n] @ [fa - r + n..<fa - r + n + (r - n)]"
        by (rule upt_add_eq_append) simp
      finally show ?thesis unfolding e using n0(2) less.prems(2) by simp
    qed
    have goal: "length (ks1 @ ks') = (?pos + r) div ?W \<and>
                m_bufferPos s' = (?pos + r) mod ?W \<and>
                take ((?pos + r) mod ?W) (m_buffer s')
                  = drop ((?pos + r) div ?W * ?W) (take ?pos (m_buffer s) @ map ?F [fa - r..<fa])"
    proof (cases "?pos + n = ?W")
      case False
      then have lt: "?pos + n < ?W" using n0(3) by linarith
      then have nr: "n = r" unfolding n_def by linarith
      have a: "(?pos + r) div ?W = 0" "(?pos + r) mod ?W = ?pos + r"
        using lt nr by simp_all
      have q1: "m_bufferPos s1 = ?pos + r" using p1 a nr by simp
      have "take (?pos + r) (m_buffer s1) = take ?pos (m_buffer s) @ map ?F [fa - r..<fa]"
        unfolding b1 nr using posL less.prems(2) by simp
      then show ?thesis
        using l1 l' p' t' a q1 nr w1 by simp
    next
      case True
      have e: "?pos + r = ?W + (r - n)" using True n0(2) by linarith
      have W0: "0 < ?W" using posW by linarith
      have a: "(?pos + r) div ?W = Suc ((r - n) div ?W)" "(?pos + r) mod ?W = (r - n) mod ?W"
        unfolding e by (rule div_window[OF W0], rule mod_window)
      have q1: "m_bufferPos s1 = 0" "length ks1 = 1"
        using p1 l1 True W0 by simp_all
      have la: "length (take ?pos (m_buffer s) @ map ?F [fa - r..<fa - r + n]) = ?W"
        using posL True by simp
      have "drop (Suc ((r - n) div ?W) * ?W)
              (take ?pos (m_buffer s) @ map ?F [fa - r..<fa])
            = drop ((r - n) div ?W * ?W) (map ?F [fa - (r - n)..<fa])"
      proof -
        have "drop (Suc ((r - n) div ?W) * ?W)
                ((take ?pos (m_buffer s) @ map ?F [fa - r..<fa - r + n])
                   @ map ?F [fa - (r - n)..<fa])
              = drop ((r - n) div ?W * ?W) (map ?F [fa - (r - n)..<fa])"
          using la by (simp only: drop_append) simp
        then show ?thesis
          unfolding sp by (simp only: map_append append_assoc)
      qed
      then show ?thesis
        using l' p' t' a q1 w1 by simp
    qed
    show ?thesis
      using run v' w' w1 goal by (intro exI[of _ s'] exI[of _ "ks1 @ ks'"]) simp
  qed
qed


lemma writeData_effect:
  assumes c: "config_ok c" and v: "valid c s" and ns: "secondInPeriod s now = Inr ns"
    and m: "QT_NO_DEBUG c \<or> length data mod bytesPerFrame c = 0"
    and s1: "s1 = restartOnWrap s (s32 (int ns))"
    and fa: "fa = framesAccepted c s1 (int (length data))"
  shows "\<exists>s' ks. writeData c s now data
                     = Some (Inr (s', Lock # map FramesWritten ks @ [Unlock], int (length data))) \<and>
           valid c s' \<and>
           length ks = (m_bufferPos s1 + fa) div (m_samplesPerFFT s * NDOWN c) \<and>
           m_bufferPos s' = (m_bufferPos s1 + fa) mod (m_samplesPerFFT s * NDOWN c) \<and>
           take ((m_bufferPos s1 + fa) mod (m_samplesPerFFT s * NDOWN c)) (m_buffer s')
             = drop ((m_bufferPos s1 + fa) div (m_samplesPerFFT s * NDOWN c)
                       * (m_samplesPerFFT s * NDOWN c))
                 (take (m_bufferPos s1) (m_buffer s1) @ map (frameSample c data) [0..<fa])"
proof -
  have b: "bytesPerFrame c \<noteq> 0" using c unfolding config_ok_def by simp
  have t: "QT_NO_DEBUG c \<or> crem (int (length data)) (int (bytesPerFrame c)) = 0"
    unfolding crem_nat using m by simp
  have v1: "valid c s1" unfolding s1 by (rule valid_restartOnWrap[OF c v])
  have w1: "m_samplesPerFFT s1 = m_samplesPerFFT s"
    unfolding s1 by (simp add: restartOnWrap_def)
  have fit: "fa * bytesPerFrame c \<le> length data"
    unfolding fa by (rule framesAccepted_fits)
  obtain s' ks where lp: "frames_loop c data fa s1 [] fa = Some (Inr (s', [] @ map FramesWritten ks))"
    and v': "valid c s'"
    and l': "length ks = (m_bufferPos s1 + fa) div (m_samplesPerFFT s1 * NDOWN c)"
    and p': "m_bufferPos s' = (m_bufferPos s1 + fa) mod (m_samplesPerFFT s1 * NDOWN c)"
    and t': "take ((m_bufferPos s1 + fa) mod (m_samplesPerFFT s1 * NDOWN c)) (m_buffer s')
             = drop ((m_bufferPos s1 + fa) div (m_samplesPerFFT s1 * NDOWN c)
                       * (m_samplesPerFFT s1 * NDOWN c))
                 (take (m_bufferPos s1) (m_buffer s1) @ map (frameSample c data) [fa - fa..<fa])"
    using frames_loop_effect[OF c fit v1 order_refl] by blast
  have "writeData c s now data
          = Some (Inr (s', Lock # map FramesWritten ks @ [Unlock], int (length data)))"
    using b t lp by (auto simp: writeData_def ns Let_def s1[symmetric] fa[symmetric])
  then show ?thesis
    using v' l' p' t' unfolding w1 by (intro exI[of _ s'] exI[of _ ks]) simp
qed

lemma take_drop_take:
  assumes "a + b \<le> m"
  shows "take b (drop a (take m xs)) = take b (drop a xs)"
proof -
  have "min b (m - a) = b" using assms by linarith
  then show ?thesis by (simp add: drop_take)
qed

lemma store_cong:
  assumes "off + n * bytesPerFrame c \<le> m" and "length data' = length data"
    and "take m data' = take m data"
  shows "store c data' off n pos buf = store c data off n pos buf"
proof -
  let ?b = "bytesPerFrame c"
  have "take ?b (drop (off + j * ?b) data') = take ?b (drop (off + j * ?b) data)"
    if "j < n" for j
  proof -
    have "Suc j * ?b \<le> n * ?b"
      using that by (intro mult_le_mono1) simp
    then have le: "(off + j * ?b) + ?b \<le> m"
      using assms(1) by simp
    have "take ?b (drop (off + j * ?b) data') = take ?b (drop (off + j * ?b) (take m data'))"
      by (rule take_drop_take[OF le, symmetric])
    also have "\<dots> = take ?b (drop (off + j * ?b) (take m data))"
      by (simp only: assms(3))
    also have "\<dots> = take ?b (drop (off + j * ?b) data)"
      by (rule take_drop_take[OF le])
    finally show ?thesis .
  qed
  then have "map (\<lambda>j. sampleOf c (take ?b (drop (off + j * ?b) data'))) [0..<n]
           = map (\<lambda>j. sampleOf c (take ?b (drop (off + j * ?b) data))) [0..<n]"
    by (intro map_cong) simp_all
  then show ?thesis
    unfolding store_def assms(2) by simp
qed

lemma step_cong:
  assumes "r \<le> fa" and "length data' = length data"
    and "take (fa * bytesPerFrame c) data' = take (fa * bytesPerFrame c) data"
  shows "step c data' fa s r = step c data fa s r"
proof -
  let ?n = "min (u64 (int (windowSize c s) - int (m_bufferPos s))) r"
  have "fa - r + ?n \<le> fa" using assms(1) by linarith
  then have "(fa - r + ?n) * bytesPerFrame c \<le> fa * bytesPerFrame c"
    by (rule mult_le_mono1)
  then have "(fa - r) * bytesPerFrame c + ?n * bytesPerFrame c \<le> fa * bytesPerFrame c"
    by (simp add: add_mult_distrib)
  then have "store c data' ((fa - r) * bytesPerFrame c) ?n (m_bufferPos s) (m_buffer s)
           = store c data ((fa - r) * bytesPerFrame c) ?n (m_bufferPos s) (m_buffer s)"
    using assms(2,3) by (rule store_cong)
  then show ?thesis
    unfolding step_def Let_def by simp
qed

lemma frames_loop_cong:
  assumes c: "config_ok c" and d: "fa * bytesPerFrame c \<le> length data"
    and l: "length data' = length data"
    and t: "take (fa * bytesPerFrame c) data' = take (fa * bytesPerFrame c) data"
  shows "valid c s \<Longrightarrow> r \<le> fa \<Longrightarrow>
         frames_loop c data' fa s ev r = frames_loop c data fa s ev r"
proof (induction r arbitrary: s ev rule: less_induct)
  case (less r)
  show ?case
  proof (cases "r = 0")
    case True
    have "frames_loop c data' fa s ev r = Some (Inr (s, ev))"
      using True by (subst frames_loop.simps) simp
    moreover have "frames_loop c data fa s ev r = Some (Inr (s, ev))"
      using True by (subst frames_loop.simps) simp
    ultimately show ?thesis by simp
  next
    case False
    then have r0: "0 < r" by simp
    obtain s1 ev1 r1 where st: "step c data fa s r = Inr (s1, ev1, r1)"
      and r1: "r1 < r" and v1: "valid c s1"
      using step_valid[OF c less.prems(1) r0 less.prems(2) d] by blast
    have st': "step c data' fa s r = Inr (s1, ev1, r1)"
      using step_cong[OF less.prems(2) l t] st by simp
    have r1fa: "r1 \<le> fa" using r1 less.prems(2) by linarith
    have "frames_loop c data' fa s ev r = frames_loop c data' fa s1 (ev @ ev1) r1"
      using False st' by (subst frames_loop.simps) simp
    also have "\<dots> = frames_loop c data fa s1 (ev @ ev1) r1"
      by (rule less.IH[OF r1 v1 r1fa])
    also have "frames_loop c data fa s1 (ev @ ev1) r1 = frames_loop c data fa s ev r"
      using False st by (subst (2) frames_loop.simps) simp
    finally show ?thesis .
  qed
qed

lemma writeData_cong:
  assumes c: "config_ok c" and v: "valid c s" and ns: "secondInPeriod s now = Inr ns"
    and l: "length data' = length data"
    and t: "take (framesAccepted c (restartOnWrap s (s32 (int ns))) (int (length data))
                    * bytesPerFrame c) data'
            = take (framesAccepted c (restartOnWrap s (s32 (int ns))) (int (length data))
                    * bytesPerFrame c) data"
  shows "writeData c s now data' = writeData c s now data"
proof -
  let ?s1 = "restartOnWrap s (s32 (int ns))"
  let ?fa = "framesAccepted c ?s1 (int (length data))"
  have v1: "valid c ?s1" by (rule valid_restartOnWrap[OF c v])
  have "frames_loop c data' ?fa ?s1 [] ?fa = frames_loop c data ?fa ?s1 [] ?fa"
    by (rule frames_loop_cong[OF c framesAccepted_fits l t v1 order_refl])
  then show ?thesis
    by (simp add: writeData_def ns l Let_def)
qed


text \<open>
  C1. A write of whole frames on a well-formed state accepts exactly
  \<open>fa = min (frames requested) ((capacity - kin) * NDOWN)\<close> frames, \<open>kin\<close> and the
  window position being read after the restart of a new period. The local \<open>framesAccepted\<close>
  of the code has that value, and the write itself shows it: the window position advances by
  \<open>fa\<close> frames modulo the window size, one notification is emitted for each window that
  these frames fill, and the samples left in the window are the tail of the old window content
  followed by the first \<open>fa\<close> frames of the input, in order. \<open>kin\<close> does not go back and
  stays within the capacity. The write returns the full length of the input. The frames beyond
  the accepted ones leave no trace: two inputs of the same length that agree on the accepted
  frames give the same state, the same events and the same result.
\<close>

theorem writeData_accepts_what_fits:
  assumes "config_ok c" and "valid c s"
    and "length data mod bytesPerFrame c = 0" and "length data < 2 ^ 63"
    and "secondInPeriod s now = Inr ns"
    and "kin1 = (if s32 (int ns) < m_ns s then 0 else kin s)"
    and "pos1 = (if s32 (int ns) < m_ns s then 0 else m_bufferPos s)"
    and "fa = min (length data div bytesPerFrame c) ((length (d2 s) - nat kin1) * NDOWN c)"
    and "W = m_samplesPerFFT s * NDOWN c"
  shows "framesAccepted c (restartOnWrap s (s32 (int ns))) (int (length data)) = fa \<and>
         (\<exists>s' ks. writeData c s now data
                     = Some (Inr (s', Lock # map FramesWritten ks @ [Unlock], int (length data))) \<and>
                   length ks = (pos1 + fa) div W \<and>
                   m_bufferPos s' = (pos1 + fa) mod W \<and>
                   take ((pos1 + fa) mod W) (m_buffer s')
                     = drop ((pos1 + fa) div W * W)
                         (take pos1 (m_buffer s)
                          @ map (\<lambda>j. sampleOf c (take (bytesPerFrame c)
                                                    (drop (j * bytesPerFrame c) data)))
                                [0..<fa]) \<and>
                   kin1 \<le> kin s' \<and> kin s' \<le> int (length (d2 s'))) \<and>
         (\<forall>data'. length data' = length data \<and>
                  take (fa * bytesPerFrame c) data' = take (fa * bytesPerFrame c) data
              \<longrightarrow> writeData c s now data' = writeData c s now data)"
proof -
  let ?s1 = "restartOnWrap s (s32 (int ns))"
  have v1: "valid c ?s1"
    by (rule valid_restartOnWrap[OF assms(1,2)])
  have k1: "kin ?s1 = kin1" and p1: "m_bufferPos ?s1 = pos1"
    and b1: "m_buffer ?s1 = m_buffer s" and d1: "d2 ?s1 = d2 s"
    unfolding assms(6,7) by (simp_all add: restartOnWrap_def)
  have a: "framesAccepted c ?s1 (int (length data)) = fa"
    unfolding assms(8) using framesAccepted_valid[OF assms(1) v1 assms(4)]
    by (simp only: k1 d1)
  have m: "QT_NO_DEBUG c \<or> length data mod bytesPerFrame c = 0"
    using assms(3) by simp
  obtain s' ks where w: "writeData c s now data
                     = Some (Inr (s', Lock # map FramesWritten ks @ [Unlock], int (length data)))"
    and v': "valid c s'"
    and l': "length ks = (m_bufferPos ?s1 + fa) div (m_samplesPerFFT s * NDOWN c)"
    and p': "m_bufferPos s' = (m_bufferPos ?s1 + fa) mod (m_samplesPerFFT s * NDOWN c)"
    and t': "take ((m_bufferPos ?s1 + fa) mod (m_samplesPerFFT s * NDOWN c)) (m_buffer s')
             = drop ((m_bufferPos ?s1 + fa) div (m_samplesPerFFT s * NDOWN c)
                       * (m_samplesPerFFT s * NDOWN c))
                 (take (m_bufferPos ?s1) (m_buffer ?s1) @ map (frameSample c data) [0..<fa])"
    using writeData_effect[OF assms(1,2,5) m refl a[symmetric]] by blast
  obtain s'' ks'' where w'': "writeData c s now data
             = Some (Inr (s'', Lock # map FramesWritten ks'' @ [Unlock], int (length data)))"
    and k'': "kin ?s1 \<le> kin s''"
    using writeData_returns[OF assms(1,2) m, of now] assms(5) by auto
  have "s'' = s'" using w w'' by simp
  then have kk: "kin1 \<le> kin s'" using k'' k1 by simp
  have ku: "kin s' \<le> int (length (d2 s'))" using v' unfolding valid_def by simp
  have fs: "frameSample c data
              = (\<lambda>j. sampleOf c (take (bytesPerFrame c) (drop (j * bytesPerFrame c) data)))"
    by (rule ext) (simp add: frameSample_def)
  have b: "\<exists>s' ks. writeData c s now data
                     = Some (Inr (s', Lock # map FramesWritten ks @ [Unlock], int (length data))) \<and>
                   length ks = (pos1 + fa) div W \<and>
                   m_bufferPos s' = (pos1 + fa) mod W \<and>
                   take ((pos1 + fa) mod W) (m_buffer s')
                     = drop ((pos1 + fa) div W * W)
                         (take pos1 (m_buffer s)
                          @ map (\<lambda>j. sampleOf c (take (bytesPerFrame c)
                                                    (drop (j * bytesPerFrame c) data)))
                                [0..<fa]) \<and>
                   kin1 \<le> kin s' \<and> kin s' \<le> int (length (d2 s'))"
    using w l' p' t' kk ku unfolding p1 b1 fs assms(9)
    by (intro exI[of _ s'] exI[of _ ks]) simp
  have "writeData c s now data' = writeData c s now data"
    if "length data' = length data"
      and "take (fa * bytesPerFrame c) data' = take (fa * bytesPerFrame c) data" for data'
    using that unfolding a[symmetric]
    by (intro writeData_cong[OF assms(1,2,5)])
  with a b show ?thesis by blast
qed


theorem writeData_accepts_what_fits_witness:
  "(\<exists>s' ks. writeData demo_config (demo_state\<lparr>kin := 719998\<rparr>) 65000
                 [1, 0, 2, 0, 3, 0, 4, 0, 5, 0, 6, 0, 7, 0, 8, 0, 9, 0, 10, 0]
               = Some (Inr (s', Lock # map FramesWritten ks @ [Unlock], 20)) \<and>
             length ks = 1 \<and> m_bufferPos s' = 3 \<and> take 3 (m_buffer s') = [6, 7, 8]) \<and>
   writeData demo_config (demo_state\<lparr>kin := 719998\<rparr>) 65000
       [1, 0, 2, 0, 3, 0, 4, 0, 5, 0, 6, 0, 7, 0, 8, 0, 99, 0, 98, 0]
     = writeData demo_config (demo_state\<lparr>kin := 719998\<rparr>) 65000
         [1, 0, 2, 0, 3, 0, 4, 0, 5, 0, 6, 0, 7, 0, 8, 0, 9, 0, 10, 0]"
proof -
  let ?s = "demo_state\<lparr>kin := 719998\<rparr>"
  let ?data = "[1, 0, 2, 0, 3, 0, 4, 0, 5, 0, 6, 0, 7, 0, 8, 0, 9, 0, 10, 0] :: byte list"
  let ?data' = "[1, 0, 2, 0, 3, 0, 4, 0, 5, 0, 6, 0, 7, 0, 8, 0, 99, 0, 98, 0] :: byte list"
  have v: "valid demo_config ?s"
    by (simp add: valid_def demo_config_def demo_state_def)
  have m: "length ?data mod bytesPerFrame demo_config = 0"
    by (simp add: demo_config_def)
  have l: "length ?data < 2 ^ 63" by simp
  have n: "secondInPeriod ?s 65000 = Inr 5"
    by (simp add: secondInPeriod_def demo_state_def u32_def cdiv_def crem_def)
  have k: "719998 = (if s32 (int 5) < m_ns ?s then 0 else kin ?s)"
    by (simp add: s32_def demo_state_def)
  have p: "3 = (if s32 (int 5) < m_ns ?s then 0 else m_bufferPos ?s)"
    by (simp add: s32_def demo_state_def)
  have f: "8 = min (length ?data div bytesPerFrame demo_config)
                   ((length (d2 ?s) - nat 719998) * NDOWN demo_config)"
    by (simp add: demo_config_def demo_state_def)
  have w: "8 = m_samplesPerFFT ?s * NDOWN demo_config"
    by (simp add: demo_config_def demo_state_def)
  note t = writeData_accepts_what_fits[OF demo_config_ok v m l n k p f w]
  have smp: "map (\<lambda>j. sampleOf demo_config (take (bytesPerFrame demo_config)
                        (drop (j * bytesPerFrame demo_config) ?data))) [0..<8]
             = [1, 2, 3, 4, 5, 6, 7, 8]"
    by (simp add: demo_config_def upt_conv_Cons)
  have b: "take 3 (m_buffer ?s) = [1, 2, 3]"
    by (simp add: demo_state_def)
  have a: "\<exists>s' ks. writeData demo_config ?s 65000 ?data
               = Some (Inr (s', Lock # map FramesWritten ks @ [Unlock], 20)) \<and>
             length ks = 1 \<and> m_bufferPos s' = 3 \<and> take 3 (m_buffer s') = [6, 7, 8]"
    using conjunct1[OF conjunct2[OF t]] unfolding smp b by simp blast
  have "length ?data' = length ?data \<and>
        take (8 * bytesPerFrame demo_config) ?data' = take (8 * bytesPerFrame demo_config) ?data"
    by (simp add: demo_config_def)
  then have "writeData demo_config ?s 65000 ?data' = writeData demo_config ?s 65000 ?data"
    using conjunct2[OF conjunct2[OF t]] by blast
  with a show ?thesis by blast
qed

section \<open>The assertion on whole frames\<close>







section \<open>A full window without room\<close>

lemma step_window_full:
  assumes c: "config_ok c" and v: "valid c s" and r: "0 < r" "r \<le> fa"
    and d: "fa * bytesPerFrame c \<le> length data"
    and f: "m_samplesPerFFT s * NDOWN c - m_bufferPos s \<le> r"
  shows "\<exists>buf. length buf = length (m_buffer s) \<and>
           store c data ((fa - r) * bytesPerFrame c)
             (m_samplesPerFFT s * NDOWN c - m_bufferPos s) (m_bufferPos s) (m_buffer s)
             = Inr buf \<and>
           step c data fa s r =
             (case drain c (s\<lparr>m_buffer := buf,
                              m_bufferPos := m_samplesPerFFT s * NDOWN c\<rparr>) of
                Inl e \<Rightarrow> Inl e
              | Inr (s', ev) \<Rightarrow>
                  Inr (s', ev, r - (m_samplesPerFFT s * NDOWN c - m_bufferPos s)))"
proof -
  let ?W = "m_samplesPerFFT s * NDOWN c"
  have posW: "m_bufferPos s < ?W"
    using v unfolding valid_def by auto
  have n: "min (?W - m_bufferPos s) r = ?W - m_bufferPos s"
    using f by simp
  have p: "m_bufferPos s + (?W - m_bufferPos s) = ?W"
    using posW by simp
  show ?thesis
    using step_unfold[OF c v r d] unfolding n p by blast
qed


lemma writeData_one_pass:
  assumes ns: "secondInPeriod s now = Inr ns" and b: "0 < bytesPerFrame c"
    and m: "length data mod bytesPerFrame c = 0"
    and fa: "0 < framesAccepted c (restartOnWrap s (s32 (int ns))) (int (length data))"
    and st: "step c data (framesAccepted c (restartOnWrap s (s32 (int ns))) (int (length data)))
               (restartOnWrap s (s32 (int ns)))
               (framesAccepted c (restartOnWrap s (s32 (int ns))) (int (length data)))
             = Inr (s', ev, 0)"
  shows "writeData c s now data = Some (Inr (s', Lock # ev @ [Unlock], int (length data)))"
proof -
  let ?s1 = "restartOnWrap s (s32 (int ns))"
  let ?fa = "framesAccepted c ?s1 (int (length data))"
  have "frames_loop c data ?fa s' ([] @ ev) 0 = Some (Inr (s', ev))"
    by (subst frames_loop.simps) simp
  then have "frames_loop c data ?fa ?s1 [] ?fa = Some (Inr (s', ev))"
    using fa st by (subst frames_loop.simps) simp
  moreover have "crem (int (length data)) (int (bytesPerFrame c)) = 0"
    unfolding crem_nat using m by simp
  ultimately show ?thesis
    using b by (simp add: writeData_def ns Let_def)
qed

lemma restartOnWrap_same_period:
  "\<not> ns < m_ns s \<Longrightarrow> restartOnWrap s ns = s\<lparr>m_ns := ns\<rparr>"
  by (simp add: restartOnWrap_def)

lemma framesAccepted_m_ns [simp]:
  "framesAccepted c (s\<lparr>m_ns := ns\<rparr>) n = framesAccepted c s n"
  by (simp add: framesAccepted_def framesAcceptable_def)

lemma valid_m_ns [simp]: "valid c (s\<lparr>m_ns := ns\<rparr>) = valid c s"
  by (simp add: valid_def)




section \<open>A full window with room\<close>

lemma drain_fill:
  assumes c: "config_ok c" and v: "valid c s"
    and k: "kin s < int (length (d2 s)) - int (m_samplesPerFFT s)"
  shows "\<exists>s'. drain c (s\<lparr>m_buffer := buf, m_bufferPos := m_samplesPerFFT s * NDOWN c\<rparr>)
                 = Inr (s', [FramesWritten (kin s + int (m_samplesPerFFT s))]) \<and>
              kin s' = kin s + int (m_samplesPerFFT s) \<and> m_bufferPos s' = 0 \<and>
              m_buffer s' = buf \<and> m_ns s' = m_ns s \<and>
              d2 s' = take (nat (kin s)) (d2 s)
                      @ map (\<lambda>i. downSample c (take (NDOWN c) (drop (i * NDOWN c) buf)))
                            [0..<m_samplesPerFFT s]
                      @ drop (nat (kin s) + m_samplesPerFFT s) (d2 s)"
proof -
  let ?W = "m_samplesPerFFT s * NDOWN c"
  let ?s2 = "s\<lparr>m_buffer := buf, m_bufferPos := ?W\<rparr>"
  have k0: "0 \<le> kin s" and len: "length (d2 s) = JS8_NTMAX c * 12000"
    using v unfolding valid_def by auto
  have "windowSize c ?s2 = ?W"
    using windowSize_valid[OF v] by (simp add: windowSize_def)
  then have full: "m_bufferPos ?s2 = windowSize c ?s2" by simp
  have "kinLimit c ?s2 = kinLimit c s" by (simp add: kinLimit_def)
  then have kl: "kin ?s2 < kinLimit c ?s2"
    using kinLimit_valid[OF c v] k len by simp
  have "nat (kin s) + m_samplesPerFFT s \<le> length (d2 s)"
    using k k0 by linarith
  then have fit: "nat (kin ?s2) + m_samplesPerFFT ?s2 \<le> length (d2 ?s2)" by simp
  have k2: "0 \<le> kin ?s2" using k0 by simp
  have "drain c ?s2 = Inr ((decimated c ?s2 0)\<lparr>m_bufferPos := 0\<rparr>,
                           [FramesWritten (kin ?s2 + int (m_samplesPerFFT ?s2))])"
    by (rule drain_decimate[OF full k2 kl fit])
  then show ?thesis
    by (intro exI[of _ "(decimated c ?s2 0)\<lparr>m_bufferPos := 0\<rparr>"]) (simp add: decimated_def)
qed

lemma writeData_fill_once:
  assumes c: "config_ok c" and v: "valid c s"
    and k: "kin s < int (length (d2 s)) - int (m_samplesPerFFT s)"
    and a: "secondInPeriod s now = Inr ns \<and> \<not> s32 (int ns) < m_ns s \<and>
          length data mod bytesPerFrame c = 0 \<and>
          m_bufferPos s + framesAccepted c s (int (length data)) = m_samplesPerFFT s * NDOWN c"
  shows "\<exists>buf s'. store c data 0 (framesAccepted c s (int (length data))) (m_bufferPos s) (m_buffer s) = Inr buf \<and>
                      writeData c s now data
                        = Some (Inr (s', [Lock, FramesWritten (kin s + int (m_samplesPerFFT s)), Unlock],
                                     int (length data))) \<and>
                      kin s' = kin s + int (m_samplesPerFFT s) \<and> m_bufferPos s' = 0 \<and>
                      d2 s' = take (nat (kin s)) (d2 s)
                              @ map (\<lambda>i. downSample c (take (NDOWN c) (drop (i * NDOWN c) buf)))
                                    [0..<m_samplesPerFFT s]
                              @ drop (nat (kin s) + m_samplesPerFFT s) (d2 s)"
proof -
  let ?W = "m_samplesPerFFT s * NDOWN c"
  let ?s1 = "s\<lparr>m_ns := s32 (int ns)\<rparr>"
  let ?fa = "framesAccepted c s (int (length data))"
  have r1: "restartOnWrap s (s32 (int ns)) = ?s1"
    using a by (intro restartOnWrap_same_period) simp
  have v1: "valid c ?s1" using v by simp
  have "m_bufferPos s < ?W" using v unfolding valid_def by simp
  then have fa0: "0 < ?fa" and fr: "?W - m_bufferPos s = ?fa" using a by linarith+
  have fit: "?fa * bytesPerFrame c \<le> length data"
    by (rule framesAccepted_fits)
  have f1: "m_samplesPerFFT ?s1 * NDOWN c - m_bufferPos ?s1 \<le> ?fa"
    using fr by simp
  have "\<exists>buf. length buf = length (m_buffer s) \<and>
          store c data 0 (?W - m_bufferPos s) (m_bufferPos s) (m_buffer s) = Inr buf \<and>
          step c data ?fa ?s1 ?fa =
             (case drain c (?s1\<lparr>m_buffer := buf, m_bufferPos := ?W\<rparr>) of
                Inl e \<Rightarrow> Inl e
              | Inr (s', ev) \<Rightarrow>
                  Inr (s', ev, ?fa - (m_samplesPerFFT ?s1 * NDOWN c - m_bufferPos ?s1)))"
    using step_window_full[OF c v1 fa0 order_refl fit f1] by simp
  then obtain buf where sb: "store c data 0 ?fa (m_bufferPos s) (m_buffer s) = Inr buf"
    and st: "step c data ?fa ?s1 ?fa =
             (case drain c (?s1\<lparr>m_buffer := buf, m_bufferPos := ?W\<rparr>) of
                Inl e \<Rightarrow> Inl e
              | Inr (s', ev) \<Rightarrow>
                  Inr (s', ev, ?fa - (m_samplesPerFFT ?s1 * NDOWN c - m_bufferPos ?s1)))"
    unfolding fr by blast
  have k1: "kin ?s1 < int (length (d2 ?s1)) - int (m_samplesPerFFT ?s1)"
    using k by simp
  obtain s' where dr: "drain c (?s1\<lparr>m_buffer := buf, m_bufferPos := ?W\<rparr>)
                 = Inr (s', [FramesWritten (kin s + int (m_samplesPerFFT s))])"
    and p: "kin s' = kin s + int (m_samplesPerFFT s)" "m_bufferPos s' = 0"
      "d2 s' = take (nat (kin s)) (d2 s)
                      @ map (\<lambda>i. downSample c (take (NDOWN c) (drop (i * NDOWN c) buf)))
                            [0..<m_samplesPerFFT s]
                      @ drop (nat (kin s) + m_samplesPerFFT s) (d2 s)"
    using drain_fill[OF c v1 k1, of buf] by auto
  have sr: "step c data ?fa ?s1 ?fa
              = Inr (s', [FramesWritten (kin s + int (m_samplesPerFFT s))], 0)"
    using st dr fr by simp
  have "writeData c s now data
          = Some (Inr (s', Lock # [FramesWritten (kin s + int (m_samplesPerFFT s))] @ [Unlock],
                       int (length data)))"
  proof (rule writeData_one_pass[of s now ns c data, unfolded r1 framesAccepted_m_ns])
    show "secondInPeriod s now = Inr ns" using a by simp
    show "0 < bytesPerFrame c" using c by (simp add: config_ok_def)
    show "length data mod bytesPerFrame c = 0" using a by simp
    show "0 < ?fa" by (rule fa0)
    show "step c data ?fa ?s1 ?fa
            = Inr (s', [FramesWritten (kin s + int (m_samplesPerFFT s))], 0)" by (rule sr)
  qed
  then have "writeData c s now data
          = Some (Inr (s', [Lock, FramesWritten (kin s + int (m_samplesPerFFT s)), Unlock],
                       int (length data)))"
    by simp
  with sb p show ?thesis
    by blast
qed




section \<open>The scope of the lock\<close>

lemma demo_write_events:
  "\<exists>s'. writeData demo_config demo_state 65000 [1, 0, 2, 0, 3, 0, 4, 0, 5, 0]
           = Some (Inr (s', [Lock, FramesWritten 60002, Unlock], 10))"
proof -
  let ?data = "[1, 0, 2, 0, 3, 0, 4, 0, 5, 0::nat]"
  have k: "kin demo_state < int (length (d2 demo_state)) - int (m_samplesPerFFT demo_state)"
    by (simp add: demo_state_def)
  have w: "\<not> s32 (int 5) < m_ns demo_state"
    by (simp add: s32_def demo_state_def)
  have m: "length ?data mod bytesPerFrame demo_config = 0"
    by (simp add: demo_config_def)
  have "framesAccepted demo_config demo_state (int (length ?data)) = 5"
    by (simp add: framesAccepted_def framesAcceptable_def u64_def demo_config_def demo_state_def)
  then have f: "m_bufferPos demo_state + framesAccepted demo_config demo_state (int (length ?data))
                  = m_samplesPerFFT demo_state * NDOWN demo_config"
    by (simp add: demo_config_def demo_state_def)
  obtain s' where "writeData demo_config demo_state 65000 ?data
          = Some (Inr (s', [Lock, FramesWritten (kin demo_state + int (m_samplesPerFFT demo_state)),
                            Unlock], int (length ?data)))"
    using writeData_fill_once[OF demo_config_ok demo_state_valid k, of 65000 5 ?data]
      demo_second w m f
    by blast
  then show ?thesis
    by (intro exI[of _ s']) (simp add: demo_state_def)
qed

text \<open>
  C9, as stated, fails: in the sample write that fills the window once, \<open>framesWritten\<close>
  is emitted between taking the lock and releasing it.
\<close>

theorem lock_released_before_emit_counterexample:
  "\<not> (\<exists>s' ev n. writeData demo_config demo_state 65000 [1, 0, 2, 0, 3, 0, 4, 0, 5, 0]
                     = Some (Inr (s', ev, n)) \<and> emittedUnlocked False ev)"
proof
  assume "\<exists>s' ev n. writeData demo_config demo_state 65000 [1, 0, 2, 0, 3, 0, 4, 0, 5, 0]
                     = Some (Inr (s', ev, n)) \<and> emittedUnlocked False ev"
  then obtain s' ev n where
    a: "writeData demo_config demo_state 65000 [1, 0, 2, 0, 3, 0, 4, 0, 5, 0] = Some (Inr (s', ev, n))"
    and b: "emittedUnlocked False ev"
    by blast
  from demo_write_events a have "ev = [Lock, FramesWritten 60002, Unlock]"
    by auto
  with b show False by simp
qed

lemma emittedUnlocked_held:
  "emittedUnlocked True (map FramesWritten ks @ es) = (ks = [] \<and> emittedUnlocked True es)"
  by (cases ks) simp_all

text \<open>
  C9, amended. From a well-formed state each mutating operation takes the lock first and
  releases it last: the events of a write are \<open>Lock\<close>, the \<open>framesWritten\<close> notifications of
  the windows it filled, then \<open>Unlock\<close>, so that every notification is emitted with the lock
  held and the trace has the property asked by the specification only when no window was
  filled; resynchronising and clearing the content give \<open>Lock\<close>, \<open>Unlock\<close>.
\<close>

theorem lock_held_until_return:
  assumes "config_ok c" and "valid c s"
  shows "(length data mod bytesPerFrame c = 0 \<longrightarrow>
            (\<exists>s' ks. writeData c s now data
                        = Some (Inr (s', Lock # map FramesWritten ks @ [Unlock],
                                     int (length data))) \<and>
                      emittedUnlocked False (Lock # map FramesWritten ks @ [Unlock]) = (ks = []))) \<and>
         (\<exists>s'. resetBufferPosition s now now' = Inr (s', [Lock, Unlock])) \<and>
         snd (resetBufferContent s) = [Lock, Unlock]"
proof (intro conjI impI)
  assume m: "length data mod bytesPerFrame c = 0"
  obtain s' ks where "writeData c s now data
                        = Some (Inr (s', Lock # map FramesWritten ks @ [Unlock],
                                     int (length data)))"
    using writeData_valid[OF assms m] by blast
  moreover have "emittedUnlocked False (Lock # map FramesWritten ks @ [Unlock]) = (ks = [])"
    by (simp add: emittedUnlocked_held)
  ultimately show "\<exists>s' ks. writeData c s now data
                        = Some (Inr (s', Lock # map FramesWritten ks @ [Unlock],
                                     int (length data))) \<and>
                      emittedUnlocked False (Lock # map FramesWritten ks @ [Unlock]) = (ks = [])"
    by blast
next
  show "\<exists>s'. resetBufferPosition s now now' = Inr (s', [Lock, Unlock])"
    using valid_resetBufferPosition[OF assms] by blast
next
  show "snd (resetBufferContent s) = [Lock, Unlock]"
    by (simp add: resetBufferContent_def)
qed

theorem lock_held_until_return_witness:
  "config_ok demo_config \<and> valid demo_config demo_state \<and>
   (\<exists>s' ks. writeData demo_config demo_state 65000 [1, 0, 2, 0]
               = Some (Inr (s', Lock # map FramesWritten ks @ [Unlock], 4))) \<and>
   (\<exists>s'. resetBufferPosition demo_state 65000 64000 = Inr (s', [Lock, Unlock]))"
proof -
  have "length [1, 0, 2, 0::nat] mod bytesPerFrame demo_config = 0"
    by (simp add: demo_config_def)
  then show ?thesis
    using lock_held_until_return[OF demo_config_ok demo_state_valid,
            where data = "[1, 0, 2, 0]" and now = 65000 and now' = 64000]
      demo_config_ok demo_state_valid
    by auto
qed

section \<open>Reset\<close>

lemma demo_reset_ring:
  "reset demo_config demo_state 64000 64000
     = Inr (demo_state\<lparr>kin := 48000, m_bufferPos := 0, m_ns := 4, d2 := replicate 720000 0\<rparr>,
            [Lock, Unlock, Lock, Unlock], True)"
  by (simp add: reset_def clear_def resetBufferPosition_def resetBufferContent_def
        msInPeriod_def secondInPeriod_def std_rotate_def std_rotate_reverse_def
        u32_def s32_def cdiv_def crem_def Let_def demo_config_def demo_state_def)

lemma demo_reset_plain:
  "reset (demo_config\<lparr>JS8_RING_BUFFER := False\<rparr>) demo_state 64000 64000
     = Inr (demo_state\<lparr>kin := 0, m_bufferPos := 0\<rparr>, [], True)"
  by (simp add: reset_def clear_def demo_config_def demo_state_def)

text \<open>
  C8, as stated, fails whichever way \<open>JS8_RING_BUFFER\<close> is set. With it, \<open>reset\<close> leaves
  \<open>kin\<close> at the index for the clock, 48000 in the sample state at 4 seconds into the period,
  not at 0. Without it, \<open>reset\<close> leaves the content of the buffer, 7 everywhere in the
  sample state, as it is.
\<close>

theorem reset_to_idle_counterexample:
  "\<not> (\<exists>s' ev b. reset demo_config demo_state 64000 64000 = Inr (s', ev, b) \<and>
         d2 s' = replicate (length (d2 s')) 0 \<and> kin s' = 0 \<and> m_bufferPos s' = 0) \<and>
   \<not> (\<exists>s' ev b. reset (demo_config\<lparr>JS8_RING_BUFFER := False\<rparr>) demo_state 64000 64000
                     = Inr (s', ev, b) \<and>
         d2 s' = replicate (length (d2 s')) 0 \<and> kin s' = 0 \<and> m_bufferPos s' = 0)"
proof (intro conjI notI)
  assume "\<exists>s' ev b. reset demo_config demo_state 64000 64000 = Inr (s', ev, b) \<and>
         d2 s' = replicate (length (d2 s')) 0 \<and> kin s' = 0 \<and> m_bufferPos s' = 0"
  then show False
    unfolding demo_reset_ring by auto
next
  assume "\<exists>s' ev b. reset (demo_config\<lparr>JS8_RING_BUFFER := False\<rparr>) demo_state 64000 64000
                     = Inr (s', ev, b) \<and>
         d2 s' = replicate (length (d2 s')) 0 \<and> kin s' = 0 \<and> m_bufferPos s' = 0"
  then have "d2 demo_state = replicate (length (d2 demo_state)) 0"
    unfolding demo_reset_plain by auto
  then have "replicate 720000 (7::int) ! 0 = replicate 720000 0 ! 0"
    by (simp add: demo_state_def)
  then show False by simp
qed

text \<open>
  C8, amended. From a well-formed state \<open>reset\<close> always returns, with the window position
  at 0 and with \<open>isOpen ()\<close> as its result. Built with \<open>JS8_RING_BUFFER\<close> it sets \<open>kin\<close> to
  the index for the clock, as resynchronising does, and fills the buffer with zeros; built
  without it, it sets \<open>kin\<close> to 0 and leaves the buffer as it is.
\<close>

theorem reset_result:
  assumes "config_ok c" and "valid c s"
  shows "(JS8_RING_BUFFER c \<longrightarrow>
            (\<exists>ms s'. msInPeriod s now = Inr ms \<and>
               reset c s now now' = Inr (s', [Lock, Unlock, Lock, Unlock], isOpen s) \<and>
               kin s' = int (min (u32 (int ms * int (m_frameRate s)) div 1000) (length (d2 s))) \<and>
               m_bufferPos s' = 0 \<and> d2 s' = replicate (length (d2 s)) 0)) \<and>
         (\<not> JS8_RING_BUFFER c \<longrightarrow>
            reset c s now now' = Inr (s\<lparr>kin := 0, m_bufferPos := 0\<rparr>, [], isOpen s))"
proof (intro conjI impI)
  assume ring: "JS8_RING_BUFFER c"
  obtain ms s1 where ms: "msInPeriod s now = Inr ms"
    and r: "resetBufferPosition s now now' = Inr (s1, [Lock, Unlock])"
    and k1: "kin s1 = alignedKin s ms" and p1: "m_bufferPos s1 = 0"
    and o1: "isOpen s1 = isOpen s" and l1: "length (d2 s1) = length (d2 s)"
    using valid_resetBufferPosition[OF assms] by blast
  let ?s2 = "fst (resetBufferContent s1)"
  have "reset c s now now' = Inr (?s2, [Lock, Unlock, Lock, Unlock], isOpen s)"
    using ring r o1 by (simp add: reset_def clear_def resetBufferContent_def)
  moreover have "kin ?s2 = int (min (u32 (int ms * int (m_frameRate s)) div 1000) (length (d2 s)))"
    using k1 by (simp add: resetBufferContent_def alignedKin_def)
  moreover have "m_bufferPos ?s2 = 0" using p1 by (simp add: resetBufferContent_def)
  moreover have "d2 ?s2 = replicate (length (d2 s)) 0"
    using l1 by (simp add: resetBufferContent_def)
  ultimately show "\<exists>ms s'. msInPeriod s now = Inr ms \<and>
               reset c s now now' = Inr (s', [Lock, Unlock, Lock, Unlock], isOpen s) \<and>
               kin s' = int (min (u32 (int ms * int (m_frameRate s)) div 1000) (length (d2 s))) \<and>
               m_bufferPos s' = 0 \<and> d2 s' = replicate (length (d2 s)) 0"
    using ms by blast
next
  assume "\<not> JS8_RING_BUFFER c"
  then show "reset c s now now' = Inr (s\<lparr>kin := 0, m_bufferPos := 0\<rparr>, [], isOpen s)"
    by (simp add: reset_def clear_def)
qed

theorem reset_result_witness:
  "config_ok demo_config \<and> valid demo_config demo_state \<and> JS8_RING_BUFFER demo_config \<and>
   (\<exists>s'. reset demo_config demo_state 64000 64000
            = Inr (s', [Lock, Unlock, Lock, Unlock], True) \<and>
          kin s' = 48000 \<and> m_bufferPos s' = 0 \<and> d2 s' = replicate 720000 0)"
proof -
  have ring: "JS8_RING_BUFFER demo_config" by (simp add: demo_config_def)
  obtain ms s' where ms: "msInPeriod demo_state 64000 = Inr ms"
    and r: "reset demo_config demo_state 64000 64000
              = Inr (s', [Lock, Unlock, Lock, Unlock], isOpen demo_state)"
    and k: "kin s' = int (min (u32 (int ms * int (m_frameRate demo_state)) div 1000)
                              (length (d2 demo_state)))"
    and p: "m_bufferPos s' = 0" "d2 s' = replicate (length (d2 demo_state)) 0"
    using reset_result[OF demo_config_ok demo_state_valid, where now = 64000 and now' = 64000]
      ring
    by blast
  have "ms = 4000" using ms demo_ms by simp
  then have "kin s' = 48000"
    using k by (simp add: u32_def demo_state_def)
  then show ?thesis
    using demo_config_ok demo_state_valid ring r p
    by (intro conjI exI[of _ s']) (simp_all add: demo_state_def)
qed

section \<open>Clearing the content\<close>

text \<open>
  C7. \<open>resetBufferContent\<close> (the spec's clearContent) leaves a buffer of the same
  length in which every entry is 0, and changes neither \<open>kin\<close> nor the position in
  the working window.
\<close>

theorem resetBufferContent_zero_fills:
  "d2 (fst (resetBufferContent s)) = replicate (length (d2 s)) 0 \<and>
   kin (fst (resetBufferContent s)) = kin s \<and>
   m_bufferPos (fst (resetBufferContent s)) = m_bufferPos s \<and>
   m_buffer (fst (resetBufferContent s)) = m_buffer s"
  by (simp add: resetBufferContent_def)

section \<open>The bounds of kin\<close>

lemma demo_plain_ok: "config_ok (demo_config\<lparr>JS8_RING_BUFFER := False\<rparr>)"
  by (simp add: config_ok_def demo_config_def)

lemma demo_plain_valid: "valid (demo_config\<lparr>JS8_RING_BUFFER := False\<rparr>) demo_state"
  by (simp add: valid_def demo_config_def demo_state_def)

lemma demo_write_kin:
  "\<exists>s'. writeData demo_config demo_state 65000 [1, 0, 2, 0, 3, 0, 4, 0, 5, 0]
           = Some (Inr (s', [Lock, FramesWritten 60002, Unlock], 10)) \<and>
         kin s' = 60002"
proof -
  let ?data = "[1, 0, 2, 0, 3, 0, 4, 0, 5, 0::nat]"
  have k: "kin demo_state < int (length (d2 demo_state)) - int (m_samplesPerFFT demo_state)"
    by (simp add: demo_state_def)
  have w: "\<not> s32 (int 5) < m_ns demo_state"
    by (simp add: s32_def demo_state_def)
  have m: "length ?data mod bytesPerFrame demo_config = 0"
    by (simp add: demo_config_def)
  have "framesAccepted demo_config demo_state (int (length ?data)) = 5"
    by (simp add: framesAccepted_def framesAcceptable_def u64_def demo_config_def demo_state_def)
  then have f: "m_bufferPos demo_state + framesAccepted demo_config demo_state (int (length ?data))
                  = m_samplesPerFFT demo_state * NDOWN demo_config"
    by (simp add: demo_config_def demo_state_def)
  obtain s' where "writeData demo_config demo_state 65000 ?data
          = Some (Inr (s', [Lock, FramesWritten (kin demo_state + int (m_samplesPerFFT demo_state)),
                            Unlock], int (length ?data)))"
    and "kin s' = kin demo_state + int (m_samplesPerFFT demo_state)"
    using writeData_fill_once[OF demo_config_ok demo_state_valid k, of 65000 5 ?data]
      demo_second w m f
    by blast
  then show ?thesis
    by (intro exI[of _ s']) (simp add: demo_state_def)
qed

text \<open>
  C3, as stated, fails for \<open>reset\<close> in a build without \<open>JS8_RING_BUFFER\<close>. On the sample
  state, 5 seconds into the period with \<open>m_ns = 5\<close>, so that the second has not gone back,
  \<open>reset\<close> lowers \<open>kin\<close> from 60000 to 0. It does so without resynchronising: it takes no
  lock, leaves \<open>m_ns\<close> and the buffer as they are, and the index for the clock would
  be 60000.
\<close>

theorem kin_lowered_by_reset_counterexample:
  "config_ok (demo_config\<lparr>JS8_RING_BUFFER := False\<rparr>) \<and>
   valid (demo_config\<lparr>JS8_RING_BUFFER := False\<rparr>) demo_state \<and>
   secondInPeriod demo_state 65000 = Inr 5 \<and> \<not> s32 (int 5) < m_ns demo_state \<and>
   kin demo_state = 60000 \<and>
   reset (demo_config\<lparr>JS8_RING_BUFFER := False\<rparr>) demo_state 65000 65000
     = Inr (demo_state\<lparr>kin := 0, m_bufferPos := 0\<rparr>, [], True) \<and>
   kin (demo_state\<lparr>kin := 0, m_bufferPos := 0\<rparr>) < kin demo_state \<and>
   (\<exists>s1 ev. resetBufferPosition demo_state 65000 65000 = Inr (s1, ev) \<and> kin s1 = 60000)"
proof -
  have "reset (demo_config\<lparr>JS8_RING_BUFFER := False\<rparr>) demo_state 65000 65000
          = Inr (demo_state\<lparr>kin := 0, m_bufferPos := 0\<rparr>, [], True)"
    by (simp add: reset_def clear_def demo_config_def demo_state_def)
  moreover have "\<not> s32 (int 5) < m_ns demo_state" "kin demo_state = 60000"
    "kin (demo_state\<lparr>kin := 0, m_bufferPos := 0\<rparr>) < kin demo_state"
    by (simp_all add: s32_def demo_state_def)
  moreover have "\<exists>s1 ev. resetBufferPosition demo_state 65000 65000 = Inr (s1, ev) \<and>
                   kin s1 = 60000"
  proof -
    obtain ms s1 where ms: "msInPeriod demo_state 65000 = Inr ms"
      and r: "resetBufferPosition demo_state 65000 65000 = Inr (s1, [Lock, Unlock])"
      and k: "kin s1 = alignedKin demo_state ms"
      using valid_resetBufferPosition[OF demo_config_ok demo_state_valid] by blast
    have "ms = 5000"
      using ms by (simp add: msInPeriod_def demo_state_def u32_def cdiv_def crem_def)
    then have "kin s1 = 60000"
      using k by (simp add: alignedKin_def demo_state_def u32_def)
    with r show ?thesis by blast
  qed
  ultimately show ?thesis
    using demo_plain_ok demo_plain_valid demo_second by simp
qed

text \<open>
  C3, amended. From a well-formed state, in which \<open>0 \<le> kin \<le> length d2\<close> and the block
  size set by \<open>setBlockSize\<close> is positive and fits the window buffer, each of the four
  operations returns a well-formed state again, so \<open>kin\<close> stays between 0 and the capacity.
  None of them ends in \<open>OutOfRange\<close>: every store into \<open>d2\<close> has an index below its
  length. Within a period \<open>kin\<close> never decreases except on \<open>reset\<close>, on resynchronising and
  on a write that sees the second in the period go back: a write that does not see it go
  back never lowers \<open>kin\<close>, and clearing the content leaves it as it is. Built with
  \<open>JS8_RING_BUFFER\<close>, \<open>reset\<close> leaves \<open>kin\<close> as the resynchronisation it runs has set it;
  built without, \<open>reset\<close> sets \<open>kin\<close> to 0 and leaves \<open>m_ns\<close> as it is.
\<close>

theorem kin_stays_in_bounds:
  assumes "config_ok c" and "valid c s"
  shows "(QT_NO_DEBUG c \<or> length data mod bytesPerFrame c = 0 \<longrightarrow>
            (\<exists>ns s' ev. secondInPeriod s now = Inr ns \<and>
               writeData c s now data = Some (Inr (s', ev, int (length data))) \<and>
               valid c s' \<and> 0 \<le> kin s' \<and> kin s' \<le> int (length (d2 s')) \<and>
               (\<not> s32 (int ns) < m_ns s \<longrightarrow> kin s \<le> kin s'))) \<and>
         (\<exists>s' ev. resetBufferPosition s now now' = Inr (s', ev) \<and>
               valid c s' \<and> 0 \<le> kin s' \<and> kin s' \<le> int (length (d2 s'))) \<and>
         (valid c (fst (resetBufferContent s)) \<and> kin (fst (resetBufferContent s)) = kin s) \<and>
         (\<exists>s' ev b. reset c s now now' = Inr (s', ev, b) \<and>
               valid c s' \<and> 0 \<le> kin s' \<and> kin s' \<le> int (length (d2 s'))) \<and>
         (JS8_RING_BUFFER c \<longrightarrow>
            (\<exists>s1 ev1 s' ev b. resetBufferPosition s now now' = Inr (s1, ev1) \<and>
               reset c s now now' = Inr (s', ev, b) \<and> kin s' = kin s1)) \<and>
         (\<not> JS8_RING_BUFFER c \<longrightarrow>
            (\<exists>s' ev b. reset c s now now' = Inr (s', ev, b) \<and>
               kin s' = 0 \<and> m_ns s' = m_ns s \<and> d2 s' = d2 s))"
proof (intro conjI impI)
  assume m: "QT_NO_DEBUG c \<or> length data mod bytesPerFrame c = 0"
  obtain ns s' ks where ns: "secondInPeriod s now = Inr ns"
    and w: "writeData c s now data
              = Some (Inr (s', Lock # map FramesWritten ks @ [Unlock], int (length data)))"
    and v': "valid c s'" and k: "kin (restartOnWrap s (s32 (int ns))) \<le> kin s'"
    using writeData_returns[OF assms m] by blast
  have "\<not> s32 (int ns) < m_ns s \<longrightarrow> kin s \<le> kin s'"
    using k by (auto simp: restartOnWrap_def)
  moreover have "0 \<le> kin s' \<and> kin s' \<le> int (length (d2 s'))"
    using v' unfolding valid_def by simp
  ultimately show "\<exists>ns s' ev. secondInPeriod s now = Inr ns \<and>
               writeData c s now data = Some (Inr (s', ev, int (length data))) \<and>
               valid c s' \<and> 0 \<le> kin s' \<and> kin s' \<le> int (length (d2 s')) \<and>
               (\<not> s32 (int ns) < m_ns s \<longrightarrow> kin s \<le> kin s')"
    using ns w v' by blast
next
  obtain s' where "resetBufferPosition s now now' = Inr (s', [Lock, Unlock])" "valid c s'"
    using valid_resetBufferPosition[OF assms] by blast
  moreover from this have "0 \<le> kin s' \<and> kin s' \<le> int (length (d2 s'))"
    unfolding valid_def by simp
  ultimately show "\<exists>s' ev. resetBufferPosition s now now' = Inr (s', ev) \<and>
               valid c s' \<and> 0 \<le> kin s' \<and> kin s' \<le> int (length (d2 s'))"
    by blast
next
  show "valid c (fst (resetBufferContent s))"
    by (rule valid_resetBufferContent[OF assms(2)])
next
  show "kin (fst (resetBufferContent s)) = kin s"
    by (simp add: resetBufferContent_def)
next
  obtain s' ev where "reset c s now now' = Inr (s', ev, isOpen s)" "valid c s'"
    using valid_reset[OF assms] by blast
  moreover from this have "0 \<le> kin s' \<and> kin s' \<le> int (length (d2 s'))"
    unfolding valid_def by simp
  ultimately show "\<exists>s' ev b. reset c s now now' = Inr (s', ev, b) \<and>
               valid c s' \<and> 0 \<le> kin s' \<and> kin s' \<le> int (length (d2 s'))"
    by blast
next
  assume ring: "JS8_RING_BUFFER c"
  obtain s1 where r: "resetBufferPosition s now now' = Inr (s1, [Lock, Unlock])"
    using valid_resetBufferPosition[OF assms] by blast
  have "reset c s now now'
          = Inr (fst (resetBufferContent s1), [Lock, Unlock, Lock, Unlock],
                 isOpen (fst (resetBufferContent s1)))"
    using ring r by (simp add: reset_def clear_def resetBufferContent_def)
  moreover have "kin (fst (resetBufferContent s1)) = kin s1"
    by (simp add: resetBufferContent_def)
  ultimately show "\<exists>s1 ev1 s' ev b. resetBufferPosition s now now' = Inr (s1, ev1) \<and>
               reset c s now now' = Inr (s', ev, b) \<and> kin s' = kin s1"
    using r by blast
next
  assume "\<not> JS8_RING_BUFFER c"
  then have "reset c s now now' = Inr (s\<lparr>kin := 0, m_bufferPos := 0\<rparr>, [], isOpen s)"
    by (simp add: reset_def clear_def)
  then show "\<exists>s' ev b. reset c s now now' = Inr (s', ev, b) \<and>
               kin s' = 0 \<and> m_ns s' = m_ns s \<and> d2 s' = d2 s"
    by simp
qed

theorem kin_stays_in_bounds_witness:
  "(\<exists>s'. writeData demo_config demo_state 65000 [1, 0, 2, 0, 3, 0, 4, 0, 5, 0]
            = Some (Inr (s', [Lock, FramesWritten 60002, Unlock], 10)) \<and>
          valid demo_config s' \<and> kin demo_state = 60000 \<and> kin s' = 60002 \<and>
          kin demo_state \<le> kin s' \<and> kin s' \<le> 720000) \<and>
   (\<exists>s' ev b. reset demo_config demo_state 64000 64000 = Inr (s', ev, b) \<and>
          valid demo_config s' \<and> kin s' = 48000) \<and>
   (\<exists>s' ev b. reset (demo_config\<lparr>JS8_RING_BUFFER := False\<rparr>) demo_state 64000 64000
                 = Inr (s', ev, b) \<and>
          valid (demo_config\<lparr>JS8_RING_BUFFER := False\<rparr>) s' \<and> kin s' = 0)"
proof -
  let ?data = "[1, 0, 2, 0, 3, 0, 4, 0, 5, 0::nat]"
  let ?p = "demo_config\<lparr>JS8_RING_BUFFER := False\<rparr>"
  note t = kin_stays_in_bounds[OF demo_config_ok demo_state_valid,
             where data = ?data and now = 65000 and now' = 65000]
  note u = kin_stays_in_bounds[OF demo_config_ok demo_state_valid,
             where data = ?data and now = 64000 and now' = 64000]
  note p = kin_stays_in_bounds[OF demo_plain_ok demo_plain_valid,
             where data = ?data and now = 64000 and now' = 64000]
  have m: "QT_NO_DEBUG demo_config \<or> length ?data mod bytesPerFrame demo_config = 0"
    by (simp add: demo_config_def)
  have nw: "\<not> s32 (int 5) < m_ns demo_state"
    by (simp add: s32_def demo_state_def)
  obtain ns s' ev where "secondInPeriod demo_state 65000 = Inr ns"
    and w: "writeData demo_config demo_state 65000 ?data
              = Some (Inr (s', ev, int (length ?data)))"
    and v: "valid demo_config s'" and k: "kin s' \<le> int (length (d2 s'))"
    and mono: "\<not> s32 (int ns) < m_ns demo_state \<longrightarrow> kin demo_state \<le> kin s'"
    using conjunct1[OF t] m by blast
  then have "ns = 5" using demo_second by simp
  with mono nw have k0: "kin demo_state \<le> kin s'" by simp
  have l: "length (d2 s') = 720000"
    using v by (simp add: valid_def demo_config_def)
  obtain s'' where w'': "writeData demo_config demo_state 65000 ?data
           = Some (Inr (s'', [Lock, FramesWritten 60002, Unlock], 10))"
    and k'': "kin s'' = 60002"
    using demo_write_kin by blast
  have e: "s'' = s'" "ev = [Lock, FramesWritten 60002, Unlock]"
    using w w'' by simp_all
  have a: "\<exists>s'. writeData demo_config demo_state 65000 ?data
            = Some (Inr (s', [Lock, FramesWritten 60002, Unlock], 10)) \<and>
          valid demo_config s' \<and> kin demo_state = 60000 \<and> kin s' = 60002 \<and>
          kin demo_state \<le> kin s' \<and> kin s' \<le> 720000"
    using w v k k0 l k'' unfolding e
    by (intro exI[of _ s']) (simp add: demo_state_def)
  have ring: "JS8_RING_BUFFER demo_config" by (simp add: demo_config_def)
  obtain r1 ev1 b1 where r1: "reset demo_config demo_state 64000 64000 = Inr (r1, ev1, b1)"
    and vr1: "valid demo_config r1"
    using u by blast
  have "kin r1 = 48000"
    using r1 unfolding demo_reset_ring by auto
  with r1 vr1 have b: "\<exists>s' ev b. reset demo_config demo_state 64000 64000 = Inr (s', ev, b) \<and>
          valid demo_config s' \<and> kin s' = 48000"
    by blast
  have plain: "\<not> JS8_RING_BUFFER ?p" by simp
  obtain r2 ev2 b2 where r2: "reset ?p demo_state 64000 64000 = Inr (r2, ev2, b2)"
    and vr2: "valid ?p r2"
    using p by blast
  obtain r3 ev3 b3 where r3: "reset ?p demo_state 64000 64000 = Inr (r3, ev3, b3)"
    and k3: "kin r3 = 0"
    using p plain by blast
  have "r3 = r2" using r2 r3 by simp
  with r2 vr2 k3 have c: "\<exists>s' ev b. reset ?p demo_state 64000 64000 = Inr (s', ev, b) \<and>
          valid ?p s' \<and> kin s' = 0"
    by blast
  from a b c show ?thesis by blast
qed

end
